theory Spec2Isabelle
  imports Main "HOL-Library.Word" "HOL-Library.Multiset"
begin

section \<open>The relay of \<^verbatim>\<open>app.py\<close>: data\<close>

text \<open>
  \<^verbatim>\<open>app.py\<close> serves a two-player board game over WebSocket connections. Every connection
  is handled by one coroutine (\<^verbatim>\<open>handler\<close>); the coroutines share the two dictionaries
  \<^verbatim>\<open>JOIN\<close> and \<^verbatim>\<open>WATCH\<close> and, per game, a \<^verbatim>\<open>Connect4\<close> object and a set of
  connections. asyncio runs one coroutine at a time and switches only at an \<^verbatim>\<open>await\<close>, so
  the model is a step function: one step runs one coroutine from the await where it was suspended
  to the next one.
\<close>

datatype player = PLAYER1 | PLAYER2

type_synonym conn = nat \<comment> \<open>the identity of a \<^verbatim>\<open>websocket\<close> object\<close>
type_synonym sid = nat \<comment> \<open>the address of a \<^verbatim>\<open>(game, connected)\<close> pair\<close>

text \<open>
  A JSON value as far as the handlers look at it: a string, an integer, another hashable scalar
  (null, a boolean, a float), or an array or object, which Python cannot use as a dictionary key.
\<close>

datatype jval = JStr string | JInt int | JAtom | JCompound

type_synonym move = "player \<times> jval \<times> int" \<comment> \<open>\<^verbatim>\<open>(player, column, row)\<close>\<close>

text \<open>
  A received message: text that \<^verbatim>\<open>json.loads\<close> rejects, text that decodes to something
  other than an object, or an object, given by its fields.
\<close>

datatype message = Undecodable | NonObject | Object "(string \<times> jval) list"

text \<open>The events the server sends, before \<^verbatim>\<open>json.dumps\<close>.\<close>

datatype event =
    Init_event string string \<comment> \<open>\<^verbatim>\<open>{"type": "init", "join": .., "watch": ..}\<close>\<close>
  | Play_event player jval int \<comment> \<open>\<^verbatim>\<open>{"type": "play", "player": .., "column": .., "row": ..}\<close>\<close>
  | Win_event player \<comment> \<open>\<^verbatim>\<open>{"type": "win", "player": ..}\<close>\<close>
  | Error_event string \<comment> \<open>\<^verbatim>\<open>{"type": "error", "message": ..}\<close>\<close>

datatype exn =
    JSONDecodeError | TypeError | KeyError | AssertionError | ConnectionClosed | EngineFault

subsection \<open>The rules engine\<close>

text \<open>
  \<^verbatim>\<open>connect4.py\<close> is imported by \<^verbatim>\<open>app.py\<close> and is not part of the sources at hand. Its
  rules are a parameter of the model: a first state, what an attempted move does (a row and a
  new state, a \<^verbatim>\<open>RuntimeError\<close> with its text, or any other exception), and the winner.
\<close>

datatype 'e verdict = Row int 'e | RuntimeError string | OtherError

record 'e rules =
  new_game :: 'e
  attempt :: "'e \<Rightarrow> player \<Rightarrow> jval \<Rightarrow> 'e verdict"
  winner :: "'e \<Rightarrow> player option"

record 'e game =
  engine :: 'e
  moves :: "move list"

text \<open>
  Modelled from the spec: \<^verbatim>\<open>Connect4.play\<close> and the attribute \<^verbatim>\<open>moves\<close> (the class
  \<^verbatim>\<open>Connect4\<close> is missing). An accepted move is appended to the move log as
  \<^verbatim>\<open>(player, column, row)\<close>; a rejected one leaves the game as it was.
\<close>

definition Connect4 :: "'e rules \<Rightarrow> 'e game" where
  "Connect4 R = \<lparr>engine = new_game R, moves = []\<rparr>"

definition game_play :: "'e rules \<Rightarrow> 'e game \<Rightarrow> player \<Rightarrow> jval \<Rightarrow> 'e game verdict" where
  "game_play R g p column =
     (case attempt R (engine g) p column of
        Row r e' \<Rightarrow> Row r (g\<lparr>engine := e', moves := moves g @ [(p, column, r)]\<rparr>)
      | RuntimeError msg \<Rightarrow> RuntimeError msg
      | OtherError \<Rightarrow> OtherError)"

definition game_winner :: "'e rules \<Rightarrow> 'e game \<Rightarrow> player option" where
  "game_winner R g = winner R (engine g)"

subsection \<open>Tokens\<close>

text \<open>
  \<^verbatim>\<open>secrets.token_urlsafe(n)\<close> reads \<open>n\<close> bytes from the operating system's random source
  and returns their URL-safe Base64 text without the padding. The random source is a stream of
  bytes handed to the step that needs it.
\<close>

type_synonym byte = "8 word"
type_synonym entropy = "nat \<Rightarrow> byte"

definition b64_alphabet :: string where
  "b64_alphabet = ''ABCDEFGHIJKLMNOPQRSTUVWXYZabcdefghijklmnopqrstuvwxyz0123456789-_''"

definition b64_char :: "nat \<Rightarrow> char" where
  "b64_char i = b64_alphabet ! (i mod 64)"

fun urlsafe_b64encode :: "byte list \<Rightarrow> string" where
  "urlsafe_b64encode (a # b # c # rest) =
     (let n = unat a * 65536 + unat b * 256 + unat c
      in b64_char (n div 262144) # b64_char (n div 4096) # b64_char (n div 64) # b64_char n
           # urlsafe_b64encode rest)"
| "urlsafe_b64encode [a, b] =
     (let n = unat a * 1024 + unat b * 4
      in [b64_char (n div 4096), b64_char (n div 64), b64_char n])"
| "urlsafe_b64encode [a] =
     (let n = unat a * 16 in [b64_char (n div 64), b64_char n])"
| "urlsafe_b64encode [] = []"

definition token_bytes :: "nat \<Rightarrow> entropy \<Rightarrow> byte list \<times> entropy" where
  "token_bytes n ent = (map ent [0..<n], \<lambda>i. ent (i + n))"

definition token_urlsafe :: "nat \<Rightarrow> entropy \<Rightarrow> string \<times> entropy" where
  "token_urlsafe n ent = (case token_bytes n ent of (bs, ent') \<Rightarrow> (urlsafe_b64encode bs, ent'))"

subsection \<open>Shared state and control points\<close>

text \<open>
  The tuple \<^verbatim>\<open>game, connected\<close> stored under a join key and under a watch key is one pair
  of objects; the dictionaries hold its address, so that both entries and the local variables
  of every attached handler alias the same game and the same set.
\<close>

record 'e session =
  game :: "'e game"
  connected :: "conn set"

text \<open>
  Which function's \<^verbatim>\<open>try ... finally\<close> encloses the running code: \<^verbatim>\<open>start\<close> (with its
  local \<^verbatim>\<open>join_key\<close>), \<^verbatim>\<open>join\<close> or \<^verbatim>\<open>watch\<close>.
\<close>

datatype caller = start_frame string | join_frame | watch_frame

text \<open>
  Where a handler is suspended: at \<^verbatim>\<open>websocket.recv()\<close> in \<^verbatim>\<open>handler\<close>; at a
  \<^verbatim>\<open>websocket.send\<close> inside \<^verbatim>\<open>replay\<close>, with the rest of the copied move list still to
  send; at the \<^verbatim>\<open>async for\<close> of \<^verbatim>\<open>play\<close>; at \<^verbatim>\<open>websocket.wait_closed()\<close>; or it has
  finished, by returning or by raising.
\<close>

datatype pc =
    AwaitInit
  | InReplay sid caller "move list"
  | InPlay sid player caller
  | InWaitClosed sid
  | Returned
  | Raised exn

record 'e state =
  JOIN :: "string \<Rightarrow> sid option"
  WATCH :: "string \<Rightarrow> sid option"
  heap :: "sid \<Rightarrow> 'e session"
  next_sid :: sid
  pc :: "conn \<Rightarrow> pc"
  outbox :: "conn \<Rightarrow> event list"

text \<open>
  At start-up both dictionaries are empty and no handler has run. The objects a later
  \<^verbatim>\<open>start\<close> creates are laid out in advance in the heap, unreferenced.
\<close>

definition init :: "'e rules \<Rightarrow> 'e state" where
  "init R = \<lparr>JOIN = Map.empty, WATCH = Map.empty,
             heap = (\<lambda>_. \<lparr>game = Connect4 R, connected = {}\<rparr>),
             next_sid = 0, pc = (\<lambda>_. AwaitInit), outbox = (\<lambda>_. [])\<rparr>"

section \<open>The handlers\<close>

fun is_open :: "pc \<Rightarrow> bool" where
  "is_open Returned = False"
| "is_open (Raised _) = False"
| "is_open _ = True"

text \<open>
  \<^verbatim>\<open>websocket.send\<close>: the event joins what the connection has been sent.
  A handler runs only while its connection is open; the end of the connection is the
  step \<open>Close\<close> below, which runs the handler's way out.
\<close>

definition send :: "conn \<Rightarrow> event \<Rightarrow> 'e state \<Rightarrow> 'e state" where
  "send c ev s = s\<lparr>outbox := (outbox s)(c := outbox s c @ [ev])\<rparr>"

text \<open>\<^verbatim>\<open>websockets.broadcast\<close> sends to every connection of the set that is still open.\<close>

definition broadcast :: "conn set \<Rightarrow> event \<Rightarrow> 'e state \<Rightarrow> 'e state" where
  "broadcast cs ev s =
     s\<lparr>outbox := (\<lambda>c. if c \<in> cs \<and> is_open (pc s c) then outbox s c @ [ev] else outbox s c)\<rparr>"

definition error :: "conn \<Rightarrow> string \<Rightarrow> 'e state \<Rightarrow> 'e state" where
  "error c message s = send c (Error_event message) s"

text \<open>The handler of \<open>c\<close> ends; the server then closes the connection.\<close>

definition finish :: "conn \<Rightarrow> pc \<Rightarrow> 'e state \<Rightarrow> 'e state" where
  "finish c outcome s = s\<lparr>pc := (pc s)(c := outcome)\<rparr>"

text \<open>
  The \<^verbatim>\<open>finally\<close> blocks. \<^verbatim>\<open>start\<close> runs \<^verbatim>\<open>del JOIN[join_key]\<close>; \<^verbatim>\<open>join\<close> and
  \<^verbatim>\<open>watch\<close> run \<^verbatim>\<open>connected.remove(websocket)\<close>. Either raises \<^verbatim>\<open>KeyError\<close> when
  there is nothing to remove, and that exception replaces the one in flight.
\<close>

definition remove_connected :: "sid \<Rightarrow> conn \<Rightarrow> 'e state \<Rightarrow> 'e state" where
  "remove_connected i c s =
     s\<lparr>heap := (heap s)(i := (heap s i)\<lparr>connected := connected (heap s i) - {c}\<rparr>)\<rparr>"

definition unwind :: "conn \<Rightarrow> sid \<Rightarrow> caller \<Rightarrow> pc \<Rightarrow> 'e state \<Rightarrow> 'e state" where
  "unwind c i fr outcome s =
     (case fr of
        start_frame join_key \<Rightarrow>
          (if JOIN s join_key = None then finish c (Raised KeyError) s
           else finish c outcome (s\<lparr>JOIN := (JOIN s)(join_key := None)\<rparr>))
      | _ \<Rightarrow>
          (if c \<notin> connected (heap s i) then finish c (Raised KeyError) s
           else finish c outcome (remove_connected i c s)))"

text \<open>
  One turn of the loop in \<^verbatim>\<open>replay\<close> over the copy \<open>ms\<close> of the move log: send the next
  move and suspend, or leave the loop and go on to what follows the replay in the caller.
\<close>

fun after_replay :: "sid \<Rightarrow> caller \<Rightarrow> pc" where
  "after_replay i watch_frame = InWaitClosed i"
| "after_replay i fr = InPlay i PLAYER2 fr"

fun replay :: "conn \<Rightarrow> sid \<Rightarrow> caller \<Rightarrow> move list \<Rightarrow> 'e state \<Rightarrow> 'e state" where
  "replay c i fr [] s = s\<lparr>pc := (pc s)(c := after_replay i fr)\<rparr>"
| "replay c i fr ((p, column, row) # rest) s =
     (let s' = send c (Play_event p column row) s
      in s'\<lparr>pc := (pc s')(c := InReplay i fr rest)\<rparr>)"

text \<open>\<^verbatim>\<open>event[key]\<close> on a decoded message.\<close>

fun subscript :: "message \<Rightarrow> string \<Rightarrow> exn + jval" where
  "subscript Undecodable k = Inl JSONDecodeError"
| "subscript NonObject k = Inl TypeError"
| "subscript (Object kvs) k = (case map_of kvs k of None \<Rightarrow> Inl KeyError | Some v \<Rightarrow> Inr v)"

text \<open>
  The head of the loop body of \<^verbatim>\<open>play\<close>: decode, check the tag, read the column.
\<close>

definition play_column :: "message \<Rightarrow> exn + jval" where
  "play_column m =
     (case subscript m ''type'' of
        Inl e \<Rightarrow> Inl e
      | Inr t \<Rightarrow> if t \<noteq> JStr ''play'' then Inl AssertionError else subscript m ''column'')"

text \<open>
  One iteration of the loop of \<^verbatim>\<open>play\<close>, on the message \<open>m\<close>. An exception leaves the
  loop through the caller's \<^verbatim>\<open>finally\<close>.
\<close>

definition play :: "'e rules \<Rightarrow> conn \<Rightarrow> sid \<Rightarrow> player \<Rightarrow> caller \<Rightarrow> message \<Rightarrow> 'e state \<Rightarrow> 'e state" where
  "play R c i p fr m s =
     (case play_column m of
        Inl e \<Rightarrow> unwind c i fr (Raised e) s
      | Inr column \<Rightarrow>
          (case game_play R (game (heap s i)) p column of
             RuntimeError msg \<Rightarrow> error c msg s
           | OtherError \<Rightarrow> unwind c i fr (Raised EngineFault) s
           | Row r g' \<Rightarrow>
               (let s1 = s\<lparr>heap := (heap s)(i := (heap s i)\<lparr>game := g'\<rparr>)\<rparr>;
                    s2 = broadcast (connected (heap s1 i)) (Play_event p column r) s1
                in if game_winner R (game (heap s2 i)) \<noteq> None
                   then broadcast (connected (heap s2 i)) (Win_event p) s2
                   else s2)))"

definition start :: "'e rules \<Rightarrow> conn \<Rightarrow> entropy \<Rightarrow> 'e state \<Rightarrow> 'e state" where
  "start R c ent s =
     (let i = next_sid s;
          s1 = s\<lparr>heap := (heap s)(i := \<lparr>game = Connect4 R, connected = {c}\<rparr>), next_sid := Suc i\<rparr>;
          (join_key, ent1) = token_urlsafe 12 ent;
          s2 = s1\<lparr>JOIN := (JOIN s1)(join_key \<mapsto> i)\<rparr>;
          (watch_key, ent2) = token_urlsafe 12 ent1;
          s3 = s2\<lparr>WATCH := (WATCH s2)(watch_key \<mapsto> i)\<rparr>;
          s4 = send c (Init_event join_key watch_key) s3
      in s4\<lparr>pc := (pc s4)(c := InPlay i PLAYER1 (start_frame join_key))\<rparr>)"

text \<open>
  \<^verbatim>\<open>JOIN[join_key]\<close> with whatever the client sent as the key: the keys of the dictionary
  are strings, so another scalar is never found, and an unhashable value is a \<^verbatim>\<open>TypeError\<close>.
\<close>

fun getitem :: "(string \<Rightarrow> sid option) \<Rightarrow> jval \<Rightarrow> exn + sid" where
  "getitem d (JStr k) = (case d k of None \<Rightarrow> Inl KeyError | Some i \<Rightarrow> Inr i)"
| "getitem d (JInt _) = Inl KeyError"
| "getitem d JAtom = Inl KeyError"
| "getitem d JCompound = Inl TypeError"

definition add_connected :: "sid \<Rightarrow> conn \<Rightarrow> 'e state \<Rightarrow> 'e state" where
  "add_connected i c s =
     s\<lparr>heap := (heap s)(i := (heap s i)\<lparr>connected := insert c (connected (heap s i))\<rparr>)\<rparr>"

definition attach :: "conn \<Rightarrow> sid \<Rightarrow> caller \<Rightarrow> 'e state \<Rightarrow> 'e state" where
  "attach c i fr s =
     (let s1 = add_connected i c s in replay c i fr (moves (game (heap s1 i))) s1)"

definition join :: "conn \<Rightarrow> jval \<Rightarrow> 'e state \<Rightarrow> 'e state" where
  "join c join_key s =
     (case getitem (JOIN s) join_key of
        Inl KeyError \<Rightarrow> finish c Returned (error c ''Game not found.'' s)
      | Inl e \<Rightarrow> finish c (Raised e) s
      | Inr i \<Rightarrow> attach c i join_frame s)"

definition watch :: "conn \<Rightarrow> jval \<Rightarrow> 'e state \<Rightarrow> 'e state" where
  "watch c watch_key s =
     (case getitem (WATCH s) watch_key of
        Inl KeyError \<Rightarrow> finish c Returned (error c ''Game not found.'' s)
      | Inl e \<Rightarrow> finish c (Raised e) s
      | Inr i \<Rightarrow> attach c i watch_frame s)"

text \<open>\<^verbatim>\<open>handler\<close>, from the moment \<^verbatim>\<open>websocket.recv()\<close> hands it the first message.\<close>

definition handler :: "'e rules \<Rightarrow> conn \<Rightarrow> message \<Rightarrow> entropy \<Rightarrow> 'e state \<Rightarrow> 'e state" where
  "handler R c m ent s =
     (case subscript m ''type'' of
        Inl e \<Rightarrow> finish c (Raised e) s
      | Inr t \<Rightarrow>
          if t \<noteq> JStr ''init'' then finish c (Raised AssertionError) s
          else (case subscript m ''join'' of
                  Inr k \<Rightarrow> join c k s
                | Inl _ \<Rightarrow>
                    (case subscript m ''watch'' of
                       Inr k \<Rightarrow> watch c k s
                     | Inl _ \<Rightarrow> start R c ent s)))"

section \<open>The scheduler\<close>

text \<open>
  What can happen next: the handler of \<open>c\<close>, waiting for a message, receives one (together with
  the random bytes it may draw); the handler of \<open>c\<close>, suspended in a send of \<^verbatim>\<open>replay\<close>,
  goes on; or the connection \<open>c\<close> ends, cleanly or not, and its handler leaves through the
  exception or the end of its loop.
\<close>

datatype action = Recv conn message entropy | Resume conn | Close conn bool

definition close :: "conn \<Rightarrow> bool \<Rightarrow> 'e state \<Rightarrow> 'e state" where
  "close c clean s =
     (case pc s c of
        AwaitInit \<Rightarrow> finish c (Raised ConnectionClosed) s
      | InReplay i fr rest \<Rightarrow> unwind c i fr (Raised ConnectionClosed) s
      | InPlay i p fr \<Rightarrow> unwind c i fr (if clean then Returned else Raised ConnectionClosed) s
      | InWaitClosed i \<Rightarrow> unwind c i watch_frame Returned s
      | _ \<Rightarrow> s)"

fun step :: "'e rules \<Rightarrow> action \<Rightarrow> 'e state \<Rightarrow> 'e state" where
  "step R (Recv c m ent) s =
     (case pc s c of
        AwaitInit \<Rightarrow> handler R c m ent s
      | InPlay i p fr \<Rightarrow> play R c i p fr m s
      | _ \<Rightarrow> s)"
| "step R (Resume c) s =
     (case pc s c of
        InReplay i fr rest \<Rightarrow> replay c i fr rest s
      | _ \<Rightarrow> s)"
| "step R (Close c clean) s = close c clean s"

fun run :: "'e rules \<Rightarrow> 'e state \<Rightarrow> action list \<Rightarrow> 'e state" where
  "run R s [] = s"
| "run R s (a # as) = run R (step R a s) as"

section \<open>What a connection has seen of the move log\<close>

fun session_of :: "pc \<Rightarrow> sid option" where
  "session_of (InReplay i fr rest) = Some i"
| "session_of (InPlay i p fr) = Some i"
| "session_of (InWaitClosed i) = Some i"
| "session_of _ = None"

text \<open>The \<^verbatim>\<open>try ... finally\<close> a suspended handler is inside of.\<close>

fun frame_of :: "pc \<Rightarrow> caller option" where
  "frame_of (InReplay i fr rest) = Some fr"
| "frame_of (InPlay i p fr) = Some fr"
| "frame_of (InWaitClosed i) = Some watch_frame"
| "frame_of _ = None"

text \<open>The moves a suspended \<^verbatim>\<open>replay\<close> has still to send.\<close>

fun pending :: "pc \<Rightarrow> move list" where
  "pending (InReplay i fr rest) = rest"
| "pending _ = []"

fun is_play :: "event \<Rightarrow> bool" where
  "is_play (Play_event p column row) = True"
| "is_play _ = False"

fun play_event_of :: "move \<Rightarrow> event" where
  "play_event_of (p, column, row) = Play_event p column row"

text \<open>
  The play events in \<open>out\<close> are the moves of \<open>log\<close> other than the pending ones, each once:
  the moves \<^verbatim>\<open>replay\<close> has sent so far in the order of the log, the moves broadcast since
  the log was copied in the order they were played, the two interleaved in any way.
\<close>

definition caught_up :: "move list \<Rightarrow> move list \<Rightarrow> event list \<Rightarrow> bool" where
  "caught_up log rest out \<longleftrightarrow>
     (\<exists>replayed live. log = replayed @ rest @ live \<and>
        filter is_play out \<in> shuffles (map play_event_of replayed) (map play_event_of live))"

definition conn_ok :: "'e state \<Rightarrow> conn \<Rightarrow> bool" where
  "conn_ok s c \<longleftrightarrow>
     (pc s c = AwaitInit \<longrightarrow> outbox s c = []) \<and>
     (\<forall>i. session_of (pc s c) = Some i \<longrightarrow>
        i < next_sid s \<and> c \<in> connected (heap s i) \<and>
        caught_up (moves (game (heap s i))) (pending (pc s c)) (outbox s c)) \<and>
     (\<forall>i. c \<in> connected (heap s i) \<longrightarrow> is_open (pc s c) \<longrightarrow> session_of (pc s c) = Some i) \<and>
     (\<forall>jk. frame_of (pc s c) = Some (start_frame jk) \<longrightarrow>
        (\<exists>i p. pc s c = InPlay i p (start_frame jk)) \<and>
        (\<forall>i. session_of (pc s c) = Some i \<longrightarrow>
           filter is_play (outbox s c) = map play_event_of (moves (game (heap s i)))))"

definition registry_ok :: "'e state \<Rightarrow> bool" where
  "registry_ok s \<longleftrightarrow>
     (\<forall>k i. JOIN s k = Some i \<longrightarrow> i < next_sid s) \<and>
     (\<forall>k i. WATCH s k = Some i \<longrightarrow> i < next_sid s)"

definition invariant :: "'e state \<Rightarrow> bool" where
  "invariant s \<longleftrightarrow> registry_ok s \<and> (\<forall>c. conn_ok s c)"

section \<open>A rules engine and a game, for concrete runs\<close>

text \<open>
  Modelled from the spec: the rules engine (the module \<^verbatim>\<open>connect4\<close> is missing). A move is
  illegal when the game is already decided, when it is not the player's turn, or when the column
  is full; otherwise the piece lands on top of the column, and four pieces of the mover in a line
  decide the game. A column that is not one of the seven is no rules violation but a fault.
\<close>

record c4 =
  board :: "(player \<times> int \<times> int) list"
  decided :: "player option"

definition c4_turn :: "c4 \<Rightarrow> player" where
  "c4_turn e = (if even (length (board e)) then PLAYER1 else PLAYER2)"

definition c4_line :: "(int \<times> int) list \<Rightarrow> int \<times> int \<Rightarrow> int \<times> int \<Rightarrow> bool" where
  "c4_line cells origin dir =
     list_all (\<lambda>k. (fst origin + k * fst dir, snd origin + k * snd dir) \<in> set cells) [0, 1, 2, 3]"

definition c4_wins :: "player \<Rightarrow> (player \<times> int \<times> int) list \<Rightarrow> bool" where
  "c4_wins p b =
     (let cells = map snd (filter (\<lambda>x. fst x = p) b)
      in list_ex (\<lambda>origin. list_ex (c4_line cells origin) [(1, 0), (0, 1), (1, 1), (1, -1)]) cells)"

definition c4_attempt :: "c4 \<Rightarrow> player \<Rightarrow> jval \<Rightarrow> c4 verdict" where
  "c4_attempt e p column =
     (case column of
        JInt k \<Rightarrow>
          if decided e \<noteq> None then RuntimeError ''The game is over.''
          else if p \<noteq> c4_turn e then RuntimeError ''Wrong turn.''
          else if k < 0 \<or> 7 \<le> k then OtherError
          else (let r = int (length (filter (\<lambda>x. fst (snd x) = k) (board e)))
                in if r = 6 then RuntimeError ''This slot is full.''
                   else (let b = board e @ [(p, k, r)]
                         in Row r \<lparr>board = b, decided = (if c4_wins p b then Some p else None)\<rparr>))
      | _ \<Rightarrow> OtherError)"

definition connect4 :: "c4 rules" where
  "connect4 = \<lparr>new_game = \<lparr>board = [], decided = None\<rparr>, attempt = c4_attempt, winner = decided\<rparr>"

text \<open>The messages a browser sends.\<close>

definition init_msg :: message where
  "init_msg = Object [(''type'', JStr ''init'')]"

definition join_msg :: "string \<Rightarrow> message" where
  "join_msg k = Object [(''type'', JStr ''init''), (''join'', JStr k)]"

definition watch_msg :: "string \<Rightarrow> message" where
  "watch_msg k = Object [(''type'', JStr ''init''), (''watch'', JStr k)]"

definition play_msg :: "int \<Rightarrow> message" where
  "play_msg k = Object [(''type'', JStr ''play''), (''column'', JInt k)]"

text \<open>A random source that yields zero bytes, and the token it gives.\<close>

definition zeros :: entropy where
  "zeros = (\<lambda>_. 0)"

definition tokA :: string where
  "tokA = ''AAAAAAAAAAAAAAAA''"

text \<open>
  A game in eight steps: connection 0 starts it, connection 1 joins, each plays column 3,
  connection 2 comes to watch and is sent the first move, connection 0 plays column 3 again
  while that replay is suspended, and the replay goes on to its end. The states after each step
  are written out.
\<close>

definition race :: "action list" where
  "race = [Recv 0 init_msg zeros, Recv 1 (join_msg tokA) zeros,
           Recv 0 (play_msg 3) zeros, Recv 1 (play_msg 3) zeros,
           Recv 2 (watch_msg tokA) zeros, Recv 0 (play_msg 3) zeros, Resume 2, Resume 2]"

definition m1 :: move where "m1 = (PLAYER1, JInt 3, 0)"
definition m2 :: move where "m2 = (PLAYER2, JInt 3, 1)"
definition m3 :: move where "m3 = (PLAYER1, JInt 3, 2)"

definition g0 :: "c4 game" where
  "g0 = \<lparr>engine = \<lparr>board = [], decided = None\<rparr>, moves = []\<rparr>"

definition g1 :: "c4 game" where
  "g1 = \<lparr>engine = \<lparr>board = [(PLAYER1, 3, 0)], decided = None\<rparr>, moves = [m1]\<rparr>"

definition g2 :: "c4 game" where
  "g2 = \<lparr>engine = \<lparr>board = [(PLAYER1, 3, 0), (PLAYER2, 3, 1)], decided = None\<rparr>,
        moves = [m1, m2]\<rparr>"

definition g3 :: "c4 game" where
  "g3 = \<lparr>engine = \<lparr>board = [(PLAYER1, 3, 0), (PLAYER2, 3, 1), (PLAYER1, 3, 2)], decided = None\<rparr>,
        moves = [m1, m2, m3]\<rparr>"

definition s0 :: "c4 state" where
  "s0 = \<lparr>JOIN = Map.empty, WATCH = Map.empty,
         heap = (\<lambda>_. \<lparr>game = g0, connected = {}\<rparr>),
         next_sid = 0, pc = (\<lambda>_. AwaitInit), outbox = (\<lambda>_. [])\<rparr>"

definition s1 :: "c4 state" where
  "s1 = \<lparr>JOIN = [tokA \<mapsto> 0], WATCH = [tokA \<mapsto> 0],
         heap = (heap s0)(0 := \<lparr>game = g0, connected = {0}\<rparr>),
         next_sid = 1,
         pc = (pc s0)(0 := InPlay 0 PLAYER1 (start_frame tokA)),
         outbox = (outbox s0)(0 := [Init_event tokA tokA])\<rparr>"

definition s2 :: "c4 state" where
  "s2 = s1\<lparr>heap := (heap s0)(0 := \<lparr>game = g0, connected = {0, 1}\<rparr>),
           pc := (pc s1)(1 := InPlay 0 PLAYER2 join_frame)\<rparr>"

definition s3 :: "c4 state" where
  "s3 = s2\<lparr>heap := (heap s0)(0 := \<lparr>game = g1, connected = {0, 1}\<rparr>),
           outbox := (outbox s0)(0 := [Init_event tokA tokA, play_event_of m1],
                                  1 := [play_event_of m1])\<rparr>"

definition s4 :: "c4 state" where
  "s4 = s3\<lparr>heap := (heap s0)(0 := \<lparr>game = g2, connected = {0, 1}\<rparr>),
           outbox := (outbox s0)(0 := [Init_event tokA tokA, play_event_of m1, play_event_of m2],
                                  1 := [play_event_of m1, play_event_of m2])\<rparr>"

definition s5 :: "c4 state" where
  "s5 = s4\<lparr>heap := (heap s0)(0 := \<lparr>game = g2, connected = {0, 1, 2}\<rparr>),
           pc := (pc s2)(2 := InReplay 0 watch_frame [m2]),
           outbox := (outbox s4)(2 := [play_event_of m1])\<rparr>"

definition s6 :: "c4 state" where
  "s6 = s5\<lparr>heap := (heap s0)(0 := \<lparr>game = g3, connected = {0, 1, 2}\<rparr>),
           outbox := (outbox s0)
             (0 := [Init_event tokA tokA, play_event_of m1, play_event_of m2, play_event_of m3],
              1 := [play_event_of m1, play_event_of m2, play_event_of m3],
              2 := [play_event_of m1, play_event_of m3])\<rparr>"

definition s7 :: "c4 state" where
  "s7 = s6\<lparr>pc := (pc s2)(2 := InReplay 0 watch_frame []),
           outbox := (outbox s6)(2 := [play_event_of m1, play_event_of m3, play_event_of m2])\<rparr>"

definition s8 :: "c4 state" where
  "s8 = s7\<lparr>pc := (pc s2)(2 := InWaitClosed 0)\<rparr>"

text \<open>The connection whose handler an action runs.\<close>

fun actor :: "action \<Rightarrow> conn" where
  "actor (Recv c m ent) = c"
| "actor (Resume c) = c"
| "actor (Close c clean) = c"

text \<open>
  The connections \<open>cs\<close> come one after the other: each sends the opening message \<open>m\<close> and
  is resumed \<open>n\<close> times, which takes it through a replay of \<open>n\<close> moves.
\<close>

definition arrivals :: "message \<Rightarrow> entropy \<Rightarrow> nat \<Rightarrow> conn list \<Rightarrow> action list" where
  "arrivals m ent n cs = concat (map (\<lambda>c. Recv c m ent # replicate n (Resume c)) cs)"

text \<open>The state after connection 0 has started a game and gone away.\<close>

definition s1_closed :: "c4 state" where
  "s1_closed = s1\<lparr>JOIN := Map.empty, pc := (pc s1)(0 := Returned)\<rparr>"

text \<open>
  An opening message whose join field is a JSON array, as in
  \<^verbatim>\<open>{"type": "init", "join": []}\<close>.
\<close>

definition join_array_msg :: message where
  "join_array_msg = Object [(''type'', JStr ''init''), (''join'', JCompound)]"

section \<open>Auxiliary facts\<close>

subsection \<open>What one step does\<close>

lemma play_accepted:
  assumes "pc s c = InPlay i p fr" and "play_column m = Inr column"
    and "attempt R (engine (game (heap s i))) p column = Row r e'"
  shows "step R (Recv c m ent) s =
    s\<lparr>heap := (heap s)(i := (heap s i)\<lparr>game := (game (heap s i))
          \<lparr>engine := e', moves := moves (game (heap s i)) @ [(p, column, r)]\<rparr>\<rparr>),
      outbox := (\<lambda>c'. outbox s c' @
        (if c' \<in> connected (heap s i) \<and> is_open (pc s c')
         then Play_event p column r # (if winner R e' \<noteq> None then [Win_event p] else [])
         else []))\<rparr>"
  using assms by (simp add: play_def game_play_def broadcast_def game_winner_def Let_def fun_eq_iff)

lemma play_rejected:
  assumes "pc s c = InPlay i p fr" and "play_column m = Inr column"
    and "attempt R (engine (game (heap s i))) p column = RuntimeError msg"
  shows "step R (Recv c m ent) s = s\<lparr>outbox := (outbox s)(c := outbox s c @ [Error_event msg])\<rparr>"
  using assms by (simp add: play_def game_play_def error_def send_def)


lemma play_fault:
  assumes "pc s c = InPlay i p fr" and "play_column m = Inr column"
    and "attempt R (engine (game (heap s i))) p column = OtherError"
  shows "step R (Recv c m ent) s = unwind c i fr (Raised EngineFault) s"
  using assms by (simp add: play_def game_play_def)

lemma handler_start:
  assumes "pc s c = AwaitInit" and "subscript m ''type'' = Inr (JStr ''init'')"
    and "subscript m ''join'' = Inl e1" and "subscript m ''watch'' = Inl e2"
    and "token_urlsafe 12 ent = (join_key, ent1)" and "token_urlsafe 12 ent1 = (watch_key, ent2)"
  shows "step R (Recv c m ent) s =
    s\<lparr>JOIN := (JOIN s)(join_key \<mapsto> next_sid s),
      WATCH := (WATCH s)(watch_key \<mapsto> next_sid s),
      heap := (heap s)(next_sid s := \<lparr>game = Connect4 R, connected = {c}\<rparr>),
      next_sid := Suc (next_sid s),
      pc := (pc s)(c := InPlay (next_sid s) PLAYER1 (start_frame join_key)),
      outbox := (outbox s)(c := outbox s c @ [Init_event join_key watch_key])\<rparr>"
  using assms by (simp add: handler_def start_def send_def Let_def)

lemma handler_join:
  assumes "pc s c = AwaitInit" and "subscript m ''type'' = Inr (JStr ''init'')"
    and "subscript m ''join'' = Inr k"
  shows "step R (Recv c m ent) s = join c k s"
  using assms by (simp add: handler_def)

lemma handler_watch:
  assumes "pc s c = AwaitInit" and "subscript m ''type'' = Inr (JStr ''init'')"
    and "subscript m ''join'' = Inl e" and "subscript m ''watch'' = Inr k"
  shows "step R (Recv c m ent) s = watch c k s"
  using assms by (simp add: handler_def)


lemma attach_eq:
  "attach c i fr s =
     (case moves (game (heap s i)) of
        [] \<Rightarrow> s\<lparr>heap := (heap s)(i := (heap s i)\<lparr>connected := insert c (connected (heap s i))\<rparr>),
               pc := (pc s)(c := after_replay i fr)\<rparr>
      | mv # rest \<Rightarrow>
          s\<lparr>heap := (heap s)(i := (heap s i)\<lparr>connected := insert c (connected (heap s i))\<rparr>),
            pc := (pc s)(c := InReplay i fr rest),
            outbox := (outbox s)(c := outbox s c @ [play_event_of mv])\<rparr>)"
  by (auto simp: attach_def add_connected_def send_def Let_def split: list.splits)

lemma join_found:
  "JOIN s k = Some i \<Longrightarrow> join c (JStr k) s = attach c i join_frame s"
  by (simp add: join_def)

lemma watch_found:
  "WATCH s k = Some i \<Longrightarrow> watch c (JStr k) s = attach c i watch_frame s"
  by (simp add: watch_def)

lemma join_not_found:
  "getitem (JOIN s) k = Inl KeyError \<Longrightarrow>
   join c k s = s\<lparr>pc := (pc s)(c := Returned),
                  outbox := (outbox s)(c := outbox s c @ [Error_event ''Game not found.''])\<rparr>"
  by (simp add: join_def error_def send_def finish_def)

lemma watch_not_found:
  "getitem (WATCH s) k = Inl KeyError \<Longrightarrow>
   watch c k s = s\<lparr>pc := (pc s)(c := Returned),
                   outbox := (outbox s)(c := outbox s c @ [Error_event ''Game not found.''])\<rparr>"
  by (simp add: watch_def error_def send_def finish_def)

lemma resume_replay:
  "pc s c = InReplay i fr (mv # rest) \<Longrightarrow>
   step R (Resume c) s = s\<lparr>pc := (pc s)(c := InReplay i fr rest),
                           outbox := (outbox s)(c := outbox s c @ [play_event_of mv])\<rparr>"
  by (cases mv) (simp add: send_def Let_def)

lemma resume_done:
  "pc s c = InReplay i fr [] \<Longrightarrow> step R (Resume c) s = s\<lparr>pc := (pc s)(c := after_replay i fr)\<rparr>"
  by simp

subsection \<open>The concrete game\<close>

lemma token_zeros: "token_urlsafe 12 zeros = (tokA, zeros)"
  by (simp add: token_urlsafe_def token_bytes_def zeros_def b64_char_def b64_alphabet_def upt_rec tokA_def)

lemma init_connect4: "init connect4 = s0"
  by (simp add: init_def s0_def Connect4_def connect4_def g0_def)

lemma attempt1: "attempt connect4 (engine g0) PLAYER1 (JInt 3) = Row 0 (engine g1)"
  by code_simp

lemma attempt2: "attempt connect4 (engine g1) PLAYER2 (JInt 3) = Row 1 (engine g2)"
  by code_simp

lemma attempt3: "attempt connect4 (engine g2) PLAYER1 (JInt 3) = Row 2 (engine g3)"
  by code_simp

lemma attempt_wrong_turn: "attempt connect4 (engine g1) PLAYER1 (JInt 3) = RuntimeError ''Wrong turn.''"
  by code_simp

lemma winner_none: "winner connect4 (engine g1) = None" "winner connect4 (engine g2) = None" "winner connect4 (engine g3) = None"
  by code_simp+

lemma msg_fields:
  "subscript init_msg ''type'' = Inr (JStr ''init'')"
  "subscript init_msg ''join'' = Inl KeyError"
  "subscript init_msg ''watch'' = Inl KeyError"
  "subscript (join_msg k) ''type'' = Inr (JStr ''init'')"
  "subscript (join_msg k) ''join'' = Inr (JStr k)"
  "subscript (watch_msg k) ''type'' = Inr (JStr ''init'')"
  "subscript (watch_msg k) ''join'' = Inl KeyError"
  "subscript (watch_msg k) ''watch'' = Inr (JStr k)"
  "play_column (play_msg n) = Inr (JInt n)"
  by (simp_all add: init_msg_def join_msg_def watch_msg_def play_msg_def play_column_def)

lemma step1: "step connect4 (Recv 0 init_msg zeros) s0 = s1"
  by (subst handler_start [OF _ msg_fields(1-3) token_zeros token_zeros])
     (simp_all add: s0_def s1_def Connect4_def connect4_def g0_def)

lemma step2: "step connect4 (Recv 1 (join_msg tokA) zeros) s1 = s2"
  by (subst handler_join [OF _ msg_fields(4,5)], simp add: s1_def s0_def,
      subst join_found [where i = 0], simp add: s1_def,
      simp add: attach_eq s0_def s1_def s2_def g0_def insert_commute)

lemma step3: "step connect4 (Recv 0 (play_msg 3) zeros) s2 = s3"
  apply (subst play_accepted [OF _ msg_fields(9), where i = 0 and p = PLAYER1 and r = 0 and e' = "engine g1"])
    apply (simp add: s2_def s1_def s0_def)
   apply (simp add: s2_def s1_def s0_def attempt1)
  apply (simp add: winner_none)
  apply (simp add: s0_def s1_def s2_def s3_def g0_def g1_def m1_def fun_eq_iff)
  done

lemma step4: "step connect4 (Recv 1 (play_msg 3) zeros) s3 = s4"
  apply (subst play_accepted [OF _ msg_fields(9), where i = 0 and p = PLAYER2 and r = 1 and e' = "engine g2"])
    apply (simp add: s3_def s2_def s1_def s0_def)
   apply (simp add: s3_def s2_def s1_def s0_def attempt2)
  apply (simp add: winner_none)
  apply (simp add: s0_def s1_def s2_def s3_def s4_def g1_def g2_def m1_def m2_def fun_eq_iff)
  done

lemma step5: "step connect4 (Recv 2 (watch_msg tokA) zeros) s4 = s5"
  apply (subst handler_watch [OF _ msg_fields(6-8)])
   apply (simp add: s4_def s3_def s2_def s1_def s0_def)
  apply (subst watch_found [where i = 0])
   apply (simp add: s4_def s3_def s2_def s1_def)
  apply (simp add: attach_eq s0_def s1_def s2_def s3_def s4_def s5_def g2_def m1_def m2_def
      insert_commute)
  done

lemma step6: "step connect4 (Recv 0 (play_msg 3) zeros) s5 = s6"
  apply (subst play_accepted [OF _ msg_fields(9), where i = 0 and p = PLAYER1 and r = 2 and e' = "engine g3"])
    apply (simp add: s5_def s4_def s3_def s2_def s1_def s0_def)
   apply (simp add: s5_def s4_def s3_def s2_def s1_def s0_def attempt3)
  apply (simp add: winner_none)
  apply (simp add: s0_def s1_def s2_def s3_def s4_def s5_def s6_def g2_def g3_def
      m1_def m2_def m3_def fun_eq_iff)
  done

lemma step7: "step connect4 (Resume 2) s6 = s7"
  by (subst resume_replay [where i = 0 and fr = watch_frame and mv = m2 and rest = "[]"])
     (simp_all add: s7_def s6_def s5_def s4_def s3_def s2_def s1_def s0_def)

lemma step8: "step connect4 (Resume 2) s7 = s8"
  by (subst resume_done [where i = 0 and fr = watch_frame])
     (simp_all add: s8_def s7_def s6_def s5_def s4_def s3_def s2_def s1_def s0_def)

lemma run_race: "run connect4 (init connect4) race = s8"
  by (simp only: race_def run.simps init_connect4 step1 step2 step3 step4 step5 step6 step7 step8)

lemma race_end:
  "pc s8 2 = InWaitClosed 0"
  "outbox s8 2 = [play_event_of m1, play_event_of m3, play_event_of m2]"
  "moves (game (heap s8 0)) = [m1, m2, m3]"
  by (simp_all add: s8_def s7_def s6_def s5_def s4_def s3_def s2_def s1_def s0_def g3_def)

lemma s3_facts:
  "pc s3 0 = InPlay 0 PLAYER1 (start_frame tokA)"
  "game (heap s3 0) = g1"
  by (simp_all add: s3_def s2_def s1_def s0_def)

subsection \<open>What a step leaves alone\<close>

lemma unwind_other: "c \<noteq> c' \<Longrightarrow> pc (unwind c' i fr outcome s) c = pc s c"
  by (simp add: unwind_def finish_def remove_connected_def split: caller.splits)

lemma unwind_outbox: "outbox (unwind c i fr outcome s) = outbox s"
  by (simp add: unwind_def finish_def remove_connected_def split: caller.splits)

lemma unwind_closed: "\<not> is_open outcome \<Longrightarrow> \<not> is_open (pc (unwind c i fr outcome s) c)"
  by (simp add: unwind_def finish_def remove_connected_def split: caller.splits)

lemma play_other: "c \<noteq> c' \<Longrightarrow> pc (play R c' i p fr m s) c = pc s c"
  by (simp add: play_def unwind_other error_def send_def broadcast_def Let_def
      split: sum.splits verdict.splits)

lemma play_outbox_closed:
  "\<not> is_open (pc s c) \<Longrightarrow> c \<noteq> c' \<Longrightarrow> outbox (play R c' i p fr m s) c = outbox s c"
  by (simp add: play_def unwind_outbox error_def send_def broadcast_def Let_def
      split: sum.splits verdict.splits)

lemma attach_other:
  "c \<noteq> c' \<Longrightarrow> pc (attach c' i fr s) c = pc s c \<and> outbox (attach c' i fr s) c = outbox s c"
  by (simp add: attach_eq split: list.splits)

lemma join_other:
  "c \<noteq> c' \<Longrightarrow> pc (join c' k s) c = pc s c \<and> outbox (join c' k s) c = outbox s c"
  by (simp add: join_def attach_other finish_def error_def send_def split: sum.splits exn.splits)

lemma watch_other:
  "c \<noteq> c' \<Longrightarrow> pc (watch c' k s) c = pc s c \<and> outbox (watch c' k s) c = outbox s c"
  by (simp add: watch_def attach_other finish_def error_def send_def split: sum.splits exn.splits)

lemma start_other:
  "c \<noteq> c' \<Longrightarrow> pc (start R c' ent s) c = pc s c \<and> outbox (start R c' ent s) c = outbox s c"
  by (simp add: start_def send_def Let_def split: prod.splits)

lemma handler_other:
  "c \<noteq> c' \<Longrightarrow> pc (handler R c' m ent s) c = pc s c \<and> outbox (handler R c' m ent s) c = outbox s c"
  by (simp add: handler_def join_other watch_other start_other finish_def split: sum.splits)

lemma replay_other:
  "c \<noteq> c' \<Longrightarrow> pc (replay c' i fr ms s) c = pc s c \<and> outbox (replay c' i fr ms s) c = outbox s c"
  by (cases ms) (auto simp: send_def Let_def)

lemma close_other:
  "c \<noteq> c' \<Longrightarrow> pc (close c' clean s) c = pc s c \<and> outbox (close c' clean s) c = outbox s c"
  by (simp add: close_def finish_def unwind_other unwind_outbox split: pc.splits)

lemma step_idle: "\<not> is_open (pc s (actor a)) \<Longrightarrow> step R a s = s"
  by (cases a; cases "pc s (actor a)") (simp_all add: close_def)

lemma step_other_pc: "actor a \<noteq> c \<Longrightarrow> pc (step R a s) c = pc s c"
  by (cases a) (auto simp: handler_other play_other replay_other close_other split: pc.splits)

lemma step_terminated:
  assumes "\<not> is_open (pc s c)"
  shows "pc (step R a s) c = pc s c \<and> outbox (step R a s) c = outbox s c"
proof (cases "actor a = c")
  case True
  with assms show ?thesis by (simp add: step_idle)
next
  case False
  with assms show ?thesis
    by (cases a)
      (auto simp: handler_other play_other play_outbox_closed replay_other close_other
        split: pc.splits)
qed

lemma run_terminated:
  "\<not> is_open (pc s c) \<Longrightarrow> pc (run R s as) c = pc s c \<and> outbox (run R s as) c = outbox s c"
proof (induction as arbitrary: s)
  case Nil
  show ?case by simp
next
  case (Cons a as)
  from Cons.prems have st: "pc (step R a s) c = pc s c" "outbox (step R a s) c = outbox s c"
    using step_terminated [of s c R a] by simp_all
  with Cons.prems have "\<not> is_open (pc (step R a s) c)" by simp
  from Cons.IH [OF this] st show ?case by simp
qed

lemma s1_facts:
  "pc s1 0 = InPlay 0 PLAYER1 (start_frame tokA)"
  "pc s1 (Suc 0) = AwaitInit"
  "JOIN s1 = [tokA \<mapsto> 0]"
  "WATCH s1 = [tokA \<mapsto> 0]"
  "game (heap s1 0) = g0"
  by (simp_all add: s1_def s0_def)

lemma s2_facts:
  "pc s2 0 = InPlay 0 PLAYER1 (start_frame tokA)"
  "game (heap s2 0) = g0"
  by (simp_all add: s2_def s1_def s0_def)

lemma unwind_registry:
  "JOIN (unwind c i fr outcome s) = JOIN (unwind c i fr outcome' s)"
  "WATCH (unwind c i fr outcome s) = WATCH s"
  "heap (unwind c i fr outcome s) = heap (unwind c i fr outcome' s)"
  "next_sid (unwind c i fr outcome s) = next_sid s"
  by (simp_all add: unwind_def finish_def remove_connected_def split: caller.splits)

lemma unwind_raises: "\<exists>e'. pc (unwind c i fr (Raised e) s) c = Raised e'"
  by (simp add: unwind_def finish_def remove_connected_def split: caller.splits)

subsection \<open>A replay run to its end\<close>

lemma run_append: "run R s (as @ bs) = run R (run R s as) bs"
  by (induction as arbitrary: s) simp_all

lemma run_snoc: "run R s (as @ [a]) = step R a (run R s as)"
  by (simp add: run_append)

lemma replay_prefix:
  "pc s c = InReplay i fr rest \<Longrightarrow> n \<le> length rest \<Longrightarrow>
   run R s (replicate n (Resume c)) =
     s\<lparr>pc := (pc s)(c := InReplay i fr (drop n rest)),
       outbox := (outbox s)(c := outbox s c @ map play_event_of (take n rest))\<rparr>"
proof (induction n arbitrary: s rest)
  case 0
  then have "(pc s)(c := InReplay i fr rest) = pc s" by (auto simp: fun_eq_iff)
  then show ?case by simp
next
  case (Suc n)
  then obtain mv rest' where r: "rest = mv # rest'" by (cases rest) auto
  let ?s1 = "s\<lparr>pc := (pc s)(c := InReplay i fr rest'),
                outbox := (outbox s)(c := outbox s c @ [play_event_of mv])\<rparr>"
  have st: "step R (Resume c) s = ?s1"
    by (rule resume_replay) (use Suc.prems(1) r in simp)
  have A: "run R s (replicate (Suc n) (Resume c)) = run R ?s1 (replicate n (Resume c))"
    by (simp only: replicate_Suc run.simps st)
  have B: "run R ?s1 (replicate n (Resume c)) =
      ?s1\<lparr>pc := (pc ?s1)(c := InReplay i fr (drop n rest')),
       outbox := (outbox ?s1)(c := outbox ?s1 c @ map play_event_of (take n rest'))\<rparr>"
    using Suc.prems(2) r by (intro Suc.IH) simp_all
  have C: "?s1\<lparr>pc := (pc ?s1)(c := InReplay i fr (drop n rest')),
       outbox := (outbox ?s1)(c := outbox ?s1 c @ map play_event_of (take n rest'))\<rparr>
     = s\<lparr>pc := (pc s)(c := InReplay i fr (drop (Suc n) rest)),
       outbox := (outbox s)(c := outbox s c @ map play_event_of (take (Suc n) rest))\<rparr>"
    using r by simp
  show ?case by (simp only: A B C)
qed

lemma replay_to_end:
  assumes "pc s c = InReplay i fr rest"
  shows "run R s (replicate (Suc (length rest)) (Resume c)) =
     s\<lparr>pc := (pc s)(c := after_replay i fr),
       outbox := (outbox s)(c := outbox s c @ map play_event_of rest)\<rparr>"
proof -
  let ?s1 = "s\<lparr>pc := (pc s)(c := InReplay i fr []),
       outbox := (outbox s)(c := outbox s c @ map play_event_of rest)\<rparr>"
  have "replicate (Suc (length rest)) (Resume c) = replicate (length rest) (Resume c) @ [Resume c]"
    by (simp add: replicate_append_same)
  then have A: "run R s (replicate (Suc (length rest)) (Resume c))
      = step R (Resume c) (run R s (replicate (length rest) (Resume c)))"
    by (simp only: run_snoc)
  have B: "run R s (replicate (length rest) (Resume c)) = ?s1"
    using replay_prefix [OF assms, of "length rest" R] by simp
  have C: "step R (Resume c) ?s1 = ?s1\<lparr>pc := (pc ?s1)(c := after_replay i fr)\<rparr>"
    by (rule resume_done) simp
  have D: "?s1\<lparr>pc := (pc ?s1)(c := after_replay i fr)\<rparr> =
     s\<lparr>pc := (pc s)(c := after_replay i fr),
       outbox := (outbox s)(c := outbox s c @ map play_event_of rest)\<rparr>"
    by simp
  show ?thesis by (simp only: A B C D)
qed

lemma attach_to_end:
  assumes "step R (Recv c m ent) s = attach c i fr s"
  shows "run R s (Recv c m ent # replicate (length (moves (game (heap s i)))) (Resume c)) =
     s\<lparr>heap := (heap s)(i := (heap s i)\<lparr>connected := insert c (connected (heap s i))\<rparr>),
       pc := (pc s)(c := after_replay i fr),
       outbox := (outbox s)(c := outbox s c @ map play_event_of (moves (game (heap s i))))\<rparr>"
proof (cases "moves (game (heap s i))")
  case Nil
  have "step R (Recv c m ent) s =
     s\<lparr>heap := (heap s)(i := (heap s i)\<lparr>connected := insert c (connected (heap s i))\<rparr>),
       pc := (pc s)(c := after_replay i fr)\<rparr>"
    unfolding assms using Nil by (simp add: attach_eq)
  moreover have "(outbox s)(c := outbox s c) = outbox s" by (auto simp: fun_eq_iff)
  ultimately show ?thesis
    using Nil by (simp del: step.simps)
next
  case (Cons mv rest)
  let ?s1 = "s\<lparr>heap := (heap s)(i := (heap s i)\<lparr>connected := insert c (connected (heap s i))\<rparr>),
            pc := (pc s)(c := InReplay i fr rest),
            outbox := (outbox s)(c := outbox s c @ [play_event_of mv])\<rparr>"
  have st: "step R (Recv c m ent) s = ?s1"
    unfolding assms using Cons by (simp add: attach_eq)
  have len: "length (moves (game (heap s i))) = Suc (length rest)"
    using Cons by simp
  have A: "run R s (Recv c m ent # replicate (length (moves (game (heap s i)))) (Resume c))
      = run R ?s1 (replicate (Suc (length rest)) (Resume c))"
    by (simp only: len run.simps st)
  have B: "run R ?s1 (replicate (Suc (length rest)) (Resume c)) =
      ?s1\<lparr>pc := (pc ?s1)(c := after_replay i fr),
       outbox := (outbox ?s1)(c := outbox ?s1 c @ map play_event_of rest)\<rparr>"
    by (rule replay_to_end) simp
  have C: "?s1\<lparr>pc := (pc ?s1)(c := after_replay i fr),
       outbox := (outbox ?s1)(c := outbox ?s1 c @ map play_event_of rest)\<rparr> =
     s\<lparr>heap := (heap s)(i := (heap s i)\<lparr>connected := insert c (connected (heap s i))\<rparr>),
       pc := (pc s)(c := after_replay i fr),
       outbox := (outbox s)(c := outbox s c @ map play_event_of (moves (game (heap s i))))\<rparr>"
    using Cons by simp
  show ?thesis by (simp only: A B C)
qed

lemma attach_prefix:
  assumes "step R (Recv c m ent) s = attach c i fr s" and "n < length (moves (game (heap s i)))"
  shows "pc (run R s (Recv c m ent # replicate n (Resume c))) c
           = InReplay i fr (drop (Suc n) (moves (game (heap s i))))
       \<and> outbox (run R s (Recv c m ent # replicate n (Resume c))) c
           = outbox s c @ map play_event_of (take (Suc n) (moves (game (heap s i))))"
proof -
  from assms(2) obtain mv rest where ms: "moves (game (heap s i)) = mv # rest"
    by (cases "moves (game (heap s i))") auto
  let ?s1 = "s\<lparr>heap := (heap s)(i := (heap s i)\<lparr>connected := insert c (connected (heap s i))\<rparr>),
            pc := (pc s)(c := InReplay i fr rest),
            outbox := (outbox s)(c := outbox s c @ [play_event_of mv])\<rparr>"
  have st: "step R (Recv c m ent) s = ?s1"
    unfolding assms(1) using ms by (simp add: attach_eq)
  have n: "n \<le> length rest" using assms(2) ms by simp
  have A: "run R s (Recv c m ent # replicate n (Resume c)) = run R ?s1 (replicate n (Resume c))"
    by (simp only: run.simps st)
  have B: "run R ?s1 (replicate n (Resume c)) =
       ?s1\<lparr>pc := (pc ?s1)(c := InReplay i fr (drop n rest)),
       outbox := (outbox ?s1)(c := outbox ?s1 c @ map play_event_of (take n rest))\<rparr>"
    by (rule replay_prefix [OF _ n]) simp
  show ?thesis unfolding A B using ms by simp
qed

subsection \<open>Connection sets, and how a handler ends\<close>

lemma unwind_member:
  "c \<noteq> c' \<Longrightarrow> (c \<in> connected (heap (unwind c' j fr outcome s) i)) = (c \<in> connected (heap s i))"
  by (simp add: unwind_def finish_def remove_connected_def split: caller.splits)

lemma unwind_game: "game (heap (unwind c j fr outcome s) i) = game (heap s i)"
  by (simp add: unwind_def finish_def remove_connected_def split: caller.splits)

lemma unwind_next_sid: "next_sid (unwind c j fr outcome s) = next_sid s"
  by (simp add: unwind_def finish_def remove_connected_def split: caller.splits)

lemma play_member:
  "c \<noteq> c' \<Longrightarrow>
   (c \<in> connected (heap (play R c' j p fr m s) i)) = (c \<in> connected (heap s i))"
  by (simp add: play_def unwind_member error_def send_def broadcast_def Let_def
      split: sum.splits verdict.splits)

lemma play_next_sid: "next_sid (play R c j p fr m s) = next_sid s"
  by (simp add: play_def unwind_next_sid error_def send_def broadcast_def Let_def
      split: sum.splits verdict.splits)

lemma attach_member:
  "c \<noteq> c' \<Longrightarrow> (c \<in> connected (heap (attach c' j fr s) i)) = (c \<in> connected (heap s i))"
  by (simp add: attach_eq split: list.splits)

lemma attach_next_sid: "next_sid (attach c j fr s) = next_sid s"
  by (simp add: attach_eq split: list.splits)

lemma join_member:
  "c \<noteq> c' \<Longrightarrow> (c \<in> connected (heap (join c' k s) i)) = (c \<in> connected (heap s i))"
  by (simp add: join_def attach_member finish_def error_def send_def split: sum.splits exn.splits)

lemma watch_member:
  "c \<noteq> c' \<Longrightarrow> (c \<in> connected (heap (watch c' k s) i)) = (c \<in> connected (heap s i))"
  by (simp add: watch_def attach_member finish_def error_def send_def split: sum.splits exn.splits)

lemma start_member:
  "c \<noteq> c' \<Longrightarrow> i < next_sid s \<Longrightarrow>
   (c \<in> connected (heap (start R c' ent s) i)) = (c \<in> connected (heap s i))"
  by (simp add: start_def send_def Let_def split: prod.splits)

lemma handler_member:
  "c \<noteq> c' \<Longrightarrow> i < next_sid s \<Longrightarrow>
   (c \<in> connected (heap (handler R c' m ent s) i)) = (c \<in> connected (heap s i))"
  by (simp add: handler_def join_member watch_member start_member finish_def split: sum.splits)

lemma join_next_sid: "next_sid (join c k s) = next_sid s"
  by (simp add: join_def attach_next_sid finish_def error_def send_def split: sum.splits exn.splits)

lemma watch_next_sid: "next_sid (watch c k s) = next_sid s"
  by (simp add: watch_def attach_next_sid finish_def error_def send_def split: sum.splits exn.splits)

lemma start_next_sid: "next_sid (start R c ent s) = Suc (next_sid s)"
  by (simp add: start_def send_def Let_def split: prod.splits)

lemma handler_next_sid: "next_sid s \<le> next_sid (handler R c m ent s)"
  by (simp add: handler_def join_next_sid watch_next_sid start_next_sid finish_def split: sum.splits)

lemma replay_heap: "heap (replay c i fr ms s) = heap s \<and> next_sid (replay c i fr ms s) = next_sid s"
  by (cases ms) (auto simp: send_def Let_def)

lemma close_member:
  "c \<noteq> c' \<Longrightarrow> (c \<in> connected (heap (close c' clean s) i)) = (c \<in> connected (heap s i))"
  by (simp add: close_def finish_def unwind_member split: pc.splits)

lemma close_next_sid: "next_sid (close c clean s) = next_sid s"
  by (simp add: close_def finish_def unwind_next_sid split: pc.splits)

lemma step_next_sid: "next_sid s \<le> next_sid (step R a s)"
  by (cases a)
    (auto simp: handler_next_sid play_next_sid replay_heap close_next_sid split: pc.splits)

lemma step_member:
  "actor a \<noteq> c \<Longrightarrow> i < next_sid s \<Longrightarrow>
   (c \<in> connected (heap (step R a s) i)) = (c \<in> connected (heap s i))"
  by (cases a)
    (auto simp: handler_member play_member replay_heap close_member split: pc.splits)

lemma run_member_terminated:
  "\<not> is_open (pc s c) \<Longrightarrow> i < next_sid s \<Longrightarrow>
   (c \<in> connected (heap (run R s as) i)) = (c \<in> connected (heap s i))"
proof (induction as arbitrary: s)
  case Nil
  show ?case by simp
next
  case (Cons a as)
  show ?case
  proof (cases "actor a = c")
    case True
    with Cons.prems have "step R a s = s" by (simp add: step_idle)
    with Cons show ?thesis by (simp del: step.simps)
  next
    case False
    have 1: "\<not> is_open (pc (step R a s) c)"
      using Cons.prems(1) step_terminated [of s c R a] by simp
    have 2: "i < next_sid (step R a s)"
      using Cons.prems(2) step_next_sid [of s R a] by simp
    have "(c \<in> connected (heap (run R (step R a s) as) i)) = (c \<in> connected (heap (step R a s) i))"
      by (rule Cons.IH [OF 1 2])
    also have "\<dots> = (c \<in> connected (heap s i))"
      by (rule step_member [OF False Cons.prems(2)])
    finally show ?thesis by (simp del: step.simps)
  qed
qed

lemma play_exit:
  "\<not> is_open (pc (play R c i p fr m s) c) \<Longrightarrow> is_open (pc s c) \<Longrightarrow>
   \<exists>outcome. play R c i p fr m s = unwind c i fr outcome s"
  by (auto simp: play_def error_def send_def broadcast_def Let_def
      split: sum.splits verdict.splits if_splits)

lemma step_exit:
  assumes "is_open (pc s c)" and "\<not> is_open (pc (step R a s) c)"
    and "session_of (pc s c) = Some i" and "frame_of (pc s c) = Some fr"
  shows "\<exists>outcome. step R a s = unwind c i fr outcome s"
proof -
  have act: "actor a = c"
  proof (rule ccontr)
    assume "actor a \<noteq> c"
    then have "pc (step R a s) c = pc s c" by (rule step_other_pc)
    with assms(1,2) show False by (simp del: step.simps)
  qed
  show ?thesis
  proof (cases a)
    case (Recv c' m ent)
    with act have [simp]: "c' = c" by simp
    show ?thesis
    proof (cases "pc s c")
      case (InPlay j p fr')
      with assms(2-4) Recv show ?thesis
        using play_exit [of R c j p fr' m s] by auto
    qed (use assms Recv in auto)
  next
    case (Resume c')
    with act have [simp]: "c' = c" by simp
    show ?thesis
    proof (cases "pc s c")
      case (InReplay j fr' rest)
      with assms(2) Resume show ?thesis
        by (cases rest; cases fr') (auto simp: send_def Let_def)
    qed (use assms Resume in auto)
  next
    case (Close c' clean)
    with act have [simp]: "c' = c" by simp
    show ?thesis
      using assms Close by (cases "pc s c") (auto simp: close_def)
  qed
qed

lemma unwind_start_frame:
  "JOIN (unwind c i (start_frame jk) outcome s) = (JOIN s)(jk := None)"
  "WATCH (unwind c i (start_frame jk) outcome s) = WATCH s"
  "heap (unwind c i (start_frame jk) outcome s) = heap s"
  by (auto simp: unwind_def finish_def fun_eq_iff)

lemma unwind_attached_frame:
  assumes "fr = join_frame \<or> fr = watch_frame"
  shows "JOIN (unwind c i fr outcome s) = JOIN s"
    and "WATCH (unwind c i fr outcome s) = WATCH s"
    and "connected (heap (unwind c i fr outcome s) i) = connected (heap s i) - {c}"
  using assms by (auto simp: unwind_def finish_def remove_connected_def)

lemma close_s1: "step connect4 (Close 0 True) s1 = s1_closed"
  by (simp add: close_def unwind_def finish_def s1_facts s1_closed_def)

lemma s1_more:
  "is_open (pc s1 0)" "session_of (pc s1 0) = Some 0" "frame_of (pc s1 0) = Some (start_frame tokA)"
  "0 < next_sid s1" "0 \<in> connected (heap s1 0)"
  by (simp_all add: s1_def s0_def)

lemma s1_closed_facts:
  "pc s1_closed 0 = Returned"
  "pc s1_closed (Suc 0) = AwaitInit"
  "JOIN s1_closed tokA = None"
  "WATCH s1_closed tokA = Some 0"
  "moves (game (heap s1_closed 0)) = []"
  by (simp_all add: s1_closed_def s1_def s0_def g0_def)

lemma watch_after_close:
  "pc (step connect4 (Recv 1 (watch_msg tokA) zeros) s1_closed) 1 = InWaitClosed 0"
proof -
  have "step connect4 (Recv 1 (watch_msg tokA) zeros) s1_closed = watch 1 (JStr tokA) s1_closed"
    by (rule handler_watch [OF _ msg_fields(6-8)]) (simp add: s1_closed_facts)
  also have "\<dots> = attach 1 0 watch_frame s1_closed"
    by (rule watch_found) (rule s1_closed_facts)
  finally show ?thesis
    by (simp add: attach_eq s1_closed_facts)
qed

lemma s4_facts:
  "pc s4 2 = AwaitInit"
  "WATCH s4 tokA = Some 0"
  "moves (game (heap s4 0)) = [m1, m2]"
  by (simp_all add: s4_def s3_def s2_def s1_def s0_def g2_def)

lemma attach_step:
  assumes "pc s c = AwaitInit" and "subscript m ''type'' = Inr (JStr ''init'')"
    and "(subscript m ''join'' = Inr (JStr k) \<and> JOIN s k = Some i \<and> fr = join_frame)
       \<or> ((\<exists>e. subscript m ''join'' = Inl e) \<and> subscript m ''watch'' = Inr (JStr k)
           \<and> WATCH s k = Some i \<and> fr = watch_frame)"
  shows "step R (Recv c m ent) s = attach c i fr s"
  using assms(3)
proof (elim disjE conjE exE)
  assume a: "subscript m ''join'' = Inr (JStr k)" "JOIN s k = Some i" "fr = join_frame"
  have "step R (Recv c m ent) s = join c (JStr k) s"
    by (rule handler_join [OF assms(1,2) a(1)])
  with a(2,3) show ?thesis by (simp only: join_found)
next
  fix e
  assume a: "subscript m ''join'' = Inl e" "subscript m ''watch'' = Inr (JStr k)"
    "WATCH s k = Some i" "fr = watch_frame"
  have "step R (Recv c m ent) s = watch c (JStr k) s"
    by (rule handler_watch [OF assms(1,2) a(1,2)])
  with a(3,4) show ?thesis by (simp only: watch_found)
qed

lemma arrivals_Cons:
  "arrivals m ent n (c # cs) = (Recv c m ent # replicate n (Resume c)) @ arrivals m ent n cs"
  by (simp add: arrivals_def)

lemma arrivals_run:
  assumes m: "subscript m ''type'' = Inr (JStr ''init'')" "subscript m ''join'' = Inr (JStr k)"
  shows "distinct cs \<Longrightarrow> \<forall>c\<in>set cs. pc s c = AwaitInit \<Longrightarrow> JOIN s k = Some i \<Longrightarrow>
    run R s (arrivals m ent (length (moves (game (heap s i)))) cs) =
      s\<lparr>heap := (heap s)(i := (heap s i)\<lparr>connected := set cs \<union> connected (heap s i)\<rparr>),
        pc := (\<lambda>c. if c \<in> set cs then InPlay i PLAYER2 join_frame else pc s c),
        outbox := (\<lambda>c. if c \<in> set cs
                        then outbox s c @ map play_event_of (moves (game (heap s i)))
                        else outbox s c)\<rparr>"
proof (induction cs arbitrary: s)
  case Nil
  show ?case by (simp add: arrivals_def)
next
  case (Cons c cs)
  let ?ms = "moves (game (heap s i))"
  let ?s1 = "s\<lparr>heap := (heap s)(i := (heap s i)\<lparr>connected := insert c (connected (heap s i))\<rparr>),
       pc := (pc s)(c := after_replay i join_frame),
       outbox := (outbox s)(c := outbox s c @ map play_event_of ?ms)\<rparr>"
  have c: "pc s c = AwaitInit" using Cons.prems(2) by simp
  have "step R (Recv c m ent) s = join c (JStr k) s"
    by (rule handler_join [OF c m])
  then have st: "step R (Recv c m ent) s = attach c i join_frame s"
    using Cons.prems(3) by (simp only: join_found)
  have A: "run R s (Recv c m ent # replicate (length ?ms) (Resume c)) = ?s1"
    by (rule attach_to_end [OF st])
  have ms1: "moves (game (heap ?s1 i)) = ?ms" by simp
  have B: "run R ?s1 (arrivals m ent (length (moves (game (heap ?s1 i)))) cs) =
      ?s1\<lparr>heap := (heap ?s1)(i := (heap ?s1 i)\<lparr>connected := set cs \<union> connected (heap ?s1 i)\<rparr>),
        pc := (\<lambda>c. if c \<in> set cs then InPlay i PLAYER2 join_frame else pc ?s1 c),
        outbox := (\<lambda>c. if c \<in> set cs
                        then outbox ?s1 c @ map play_event_of (moves (game (heap ?s1 i)))
                        else outbox ?s1 c)\<rparr>"
  proof (rule Cons.IH)
    show "distinct cs" using Cons.prems(1) by simp
    show "\<forall>c'\<in>set cs. pc ?s1 c' = AwaitInit" using Cons.prems(1,2) by auto
    show "JOIN ?s1 k = Some i" using Cons.prems(3) by simp
  qed
  have C: "run R s (arrivals m ent (length ?ms) (c # cs))
      = run R ?s1 (arrivals m ent (length (moves (game (heap ?s1 i)))) cs)"
    by (simp only: arrivals_Cons run_append A ms1)
  have D: "?s1\<lparr>heap := (heap ?s1)(i := (heap ?s1 i)\<lparr>connected := set cs \<union> connected (heap ?s1 i)\<rparr>),
        pc := (\<lambda>c. if c \<in> set cs then InPlay i PLAYER2 join_frame else pc ?s1 c),
        outbox := (\<lambda>c. if c \<in> set cs
                        then outbox ?s1 c @ map play_event_of (moves (game (heap ?s1 i)))
                        else outbox ?s1 c)\<rparr> =
      s\<lparr>heap := (heap s)(i := (heap s i)\<lparr>connected := set (c # cs) \<union> connected (heap s i)\<rparr>),
        pc := (\<lambda>c'. if c' \<in> set (c # cs) then InPlay i PLAYER2 join_frame else pc s c'),
        outbox := (\<lambda>c'. if c' \<in> set (c # cs)
                        then outbox s c' @ map play_event_of ?ms
                        else outbox s c')\<rparr>"
    using Cons.prems(1) by (auto simp: fun_eq_iff)
  show ?case by (simp only: C B D)
qed

subsection \<open>The invariant of the relay\<close>

lemma is_play_of [simp]: "is_play (play_event_of mv)"
  by (cases mv rule: play_event_of.cases) simp

lemma filter_play_map [simp]: "filter is_play (map play_event_of ms) = map play_event_of ms"
  by (induction ms) simp_all

lemma snoc_in_shuffles_single: "ys @ [x] \<in> shuffles [x] ys"
  by (induction ys) (auto simp: Cons_in_shuffles_iff)

lemma shuffles_snoc_left: "zs \<in> shuffles xs ys \<Longrightarrow> zs @ [x] \<in> shuffles (xs @ [x]) ys"
proof (induction xs ys arbitrary: zs rule: shuffles.induct)
  case (1 ys)
  then show ?case by (simp add: snoc_in_shuffles_single)
next
  case (2 xs)
  then show ?case by simp
next
  case (3 a xs b ys)
  then show ?case by (auto simp: Cons_in_shuffles_iff)
qed

lemma shuffles_snoc_right: "zs \<in> shuffles xs ys \<Longrightarrow> zs @ [y] \<in> shuffles xs (ys @ [y])"
  using shuffles_snoc_left [of zs ys xs y] by (simp add: shuffles_commutes)

lemma caught_up_replay_step:
  assumes "caught_up log (mv # rest) out"
  shows "caught_up log rest (out @ [play_event_of mv])"
proof -
  from assms obtain replayed live where
    l: "log = replayed @ (mv # rest) @ live"
    and sh: "filter is_play out \<in> shuffles (map play_event_of replayed) (map play_event_of live)"
    unfolding caught_up_def by blast
  have "log = (replayed @ [mv]) @ rest @ live" using l by simp
  moreover have "filter is_play (out @ [play_event_of mv])
      \<in> shuffles (map play_event_of (replayed @ [mv])) (map play_event_of live)"
    using shuffles_snoc_left [OF sh, of "play_event_of mv"] by simp
  ultimately show ?thesis unfolding caught_up_def by blast
qed

lemma caught_up_live_step:
  assumes "caught_up log rest out" and "filter is_play evs = [play_event_of mv]"
  shows "caught_up (log @ [mv]) rest (out @ evs)"
proof -
  from assms(1) obtain replayed live where
    l: "log = replayed @ rest @ live"
    and sh: "filter is_play out \<in> shuffles (map play_event_of replayed) (map play_event_of live)"
    unfolding caught_up_def by blast
  have "log @ [mv] = replayed @ rest @ (live @ [mv])" using l by simp
  moreover have "filter is_play (out @ evs)
      \<in> shuffles (map play_event_of replayed) (map play_event_of (live @ [mv]))"
    using shuffles_snoc_right [OF sh, of "play_event_of mv"] assms(2) by simp
  ultimately show ?thesis unfolding caught_up_def by blast
qed

lemma caught_up_noise:
  "caught_up log rest out \<Longrightarrow> filter is_play out' = filter is_play out \<Longrightarrow> caught_up log rest out'"
  by (simp add: caught_up_def)

lemma caught_up_empty: "filter is_play out = [] \<Longrightarrow> caught_up [] [] out"
  by (simp add: caught_up_def)

lemma caught_up_first: "caught_up (mv # rest) rest [play_event_of mv]"
proof -
  have "mv # rest = [mv] @ rest @ []" by simp
  moreover have "filter is_play [play_event_of mv] \<in> shuffles (map play_event_of [mv]) (map play_event_of [])"
    by simp
  ultimately show ?thesis unfolding caught_up_def by blast
qed

lemma conn_ok_closed: "\<not> is_open (pc s c) \<Longrightarrow> conn_ok s c"
  by (cases "pc s c") (simp_all add: conn_ok_def)

lemma session_of_open: "session_of q = Some i \<Longrightarrow> is_open q"
  by (cases q) simp_all

lemma conn_okD:
  assumes "conn_ok s c"
  shows "pc s c = AwaitInit \<Longrightarrow> outbox s c = []"
    and "session_of (pc s c) = Some i \<Longrightarrow> i < next_sid s"
    and "session_of (pc s c) = Some i \<Longrightarrow> c \<in> connected (heap s i)"
    and "session_of (pc s c) = Some i \<Longrightarrow>
           caught_up (moves (game (heap s i))) (pending (pc s c)) (outbox s c)"
    and "c \<in> connected (heap s i) \<Longrightarrow> is_open (pc s c) \<Longrightarrow> session_of (pc s c) = Some i"
    and "frame_of (pc s c) = Some (start_frame jk) \<Longrightarrow> \<exists>i p. pc s c = InPlay i p (start_frame jk)"
    and "frame_of (pc s c) = Some (start_frame jk) \<Longrightarrow> session_of (pc s c) = Some i \<Longrightarrow>
           filter is_play (outbox s c) = map play_event_of (moves (game (heap s i)))"
  using assms unfolding conn_ok_def by blast+

lemma conn_okI:
  assumes "pc s c = AwaitInit \<Longrightarrow> outbox s c = []"
    and "\<And>i. session_of (pc s c) = Some i \<Longrightarrow> i < next_sid s"
    and "\<And>i. session_of (pc s c) = Some i \<Longrightarrow> c \<in> connected (heap s i)"
    and "\<And>i. session_of (pc s c) = Some i \<Longrightarrow>
           caught_up (moves (game (heap s i))) (pending (pc s c)) (outbox s c)"
    and "\<And>i. c \<in> connected (heap s i) \<Longrightarrow> is_open (pc s c) \<Longrightarrow> session_of (pc s c) = Some i"
    and "\<And>jk. frame_of (pc s c) = Some (start_frame jk) \<Longrightarrow> \<exists>i p. pc s c = InPlay i p (start_frame jk)"
    and "\<And>jk i. frame_of (pc s c) = Some (start_frame jk) \<Longrightarrow> session_of (pc s c) = Some i \<Longrightarrow>
           filter is_play (outbox s c) = map play_event_of (moves (game (heap s i)))"
  shows "conn_ok s c"
  unfolding conn_ok_def
  by (intro conjI allI impI) (rule assms; assumption)+

lemma conn_ok_frame:
  assumes ok: "conn_ok s c"
    and pc: "pc s' c = pc s c" and out: "outbox s' c = outbox s c"
    and sid: "next_sid s \<le> next_sid s'"
    and mv: "\<And>i. i < next_sid s \<Longrightarrow> moves (game (heap s' i)) = moves (game (heap s i))"
    and keep: "\<And>i. i < next_sid s \<Longrightarrow> c \<in> connected (heap s i) \<Longrightarrow> c \<in> connected (heap s' i)"
    and bck: "\<And>i. c \<in> connected (heap s' i) \<Longrightarrow> c \<in> connected (heap s i)"
  shows "conn_ok s' c"
proof (rule conn_okI)
  assume "pc s' c = AwaitInit"
  then show "outbox s' c = []"
    unfolding pc out by (rule conn_okD(1) [OF ok])
next
  fix i assume "session_of (pc s' c) = Some i"
  then have a: "session_of (pc s c) = Some i" unfolding pc .
  have i: "i < next_sid s" by (rule conn_okD(2) [OF ok a])
  show "i < next_sid s'" using i sid by simp
  show "c \<in> connected (heap s' i)" by (rule keep [OF i conn_okD(3) [OF ok a]])
  show "caught_up (moves (game (heap s' i))) (pending (pc s' c)) (outbox s' c)"
    unfolding pc out mv [OF i] by (rule conn_okD(4) [OF ok a])
next
  fix i assume "c \<in> connected (heap s' i)" and "is_open (pc s' c)"
  then show "session_of (pc s' c) = Some i"
    unfolding pc using conn_okD(5) [OF ok] bck by blast
next
  fix jk assume "frame_of (pc s' c) = Some (start_frame jk)"
  then show "\<exists>i p. pc s' c = InPlay i p (start_frame jk)"
    unfolding pc by (rule conn_okD(6) [OF ok])
next
  fix jk i assume "frame_of (pc s' c) = Some (start_frame jk)" and "session_of (pc s' c) = Some i"
  then have a: "frame_of (pc s c) = Some (start_frame jk)" "session_of (pc s c) = Some i"
    unfolding pc by simp_all
  have i: "i < next_sid s" by (rule conn_okD(2) [OF ok a(2)])
  show "filter is_play (outbox s' c) = map play_event_of (moves (game (heap s' i)))"
    unfolding out mv [OF i] by (rule conn_okD(7) [OF ok a])
qed

lemma registry_ok_shrink:
  assumes "registry_ok s"
    and "\<And>k i. JOIN s' k = Some i \<Longrightarrow> JOIN s k = Some i"
    and "\<And>k i. WATCH s' k = Some i \<Longrightarrow> WATCH s k = Some i"
    and "next_sid s \<le> next_sid s'"
  shows "registry_ok s'"
  unfolding registry_ok_def
proof (intro conjI allI impI)
  fix k i assume "JOIN s' k = Some i"
  then have "JOIN s k = Some i" by (rule assms(2))
  with assms(1) have "i < next_sid s" unfolding registry_ok_def by blast
  with assms(4) show "i < next_sid s'" by simp
next
  fix k i assume "WATCH s' k = Some i"
  then have "WATCH s k = Some i" by (rule assms(3))
  with assms(1) have "i < next_sid s" unfolding registry_ok_def by blast
  with assms(4) show "i < next_sid s'" by simp
qed

lemma inv_local:
  assumes inv: "invariant s"
    and reg: "registry_ok s'"
    and actor: "conn_ok s' c"
    and others: "\<And>c'. c' \<noteq> c \<Longrightarrow> pc s' c' = pc s c' \<and> outbox s' c' = outbox s c'"
    and sid: "next_sid s \<le> next_sid s'"
    and mv: "\<And>i. i < next_sid s \<Longrightarrow> moves (game (heap s' i)) = moves (game (heap s i))"
    and keep: "\<And>c' i. c' \<noteq> c \<Longrightarrow> i < next_sid s \<Longrightarrow> c' \<in> connected (heap s i)
                 \<Longrightarrow> c' \<in> connected (heap s' i)"
    and bck: "\<And>c' i. c' \<noteq> c \<Longrightarrow> c' \<in> connected (heap s' i) \<Longrightarrow> c' \<in> connected (heap s i)"
  shows "invariant s'"
  unfolding invariant_def
proof (intro conjI allI)
  show "registry_ok s'" by (rule reg)
next
  fix c'
  show "conn_ok s' c'"
  proof (cases "c' = c")
    case True
    with actor show ?thesis by simp
  next
    case False
    from inv have ok: "conn_ok s c'" unfolding invariant_def by blast
    show ?thesis
    proof (rule conn_ok_frame [OF ok])
      show "pc s' c' = pc s c'" using others [OF False] by simp
      show "outbox s' c' = outbox s c'" using others [OF False] by simp
      show "next_sid s \<le> next_sid s'" by (rule sid)
      show "\<And>i. i < next_sid s \<Longrightarrow> moves (game (heap s' i)) = moves (game (heap s i))"
        by (rule mv)
      show "\<And>i. i < next_sid s \<Longrightarrow> c' \<in> connected (heap s i) \<Longrightarrow> c' \<in> connected (heap s' i)"
        by (rule keep [OF False])
      show "\<And>i. c' \<in> connected (heap s' i) \<Longrightarrow> c' \<in> connected (heap s i)"
        by (rule bck [OF False])
    qed
  qed
qed

lemma invD:
  assumes "invariant s"
  shows "registry_ok s" and "conn_ok s c"
  using assms unfolding invariant_def by blast+

lemma inv_finish:
  assumes "invariant s" and "\<not> is_open outcome"
  shows "invariant (finish c outcome s)"
proof (rule inv_local [OF assms(1), of _ c])
  show "registry_ok (finish c outcome s)"
    by (rule registry_ok_shrink [OF invD(1) [OF assms(1)]]) (simp_all add: finish_def)
  show "conn_ok (finish c outcome s) c"
    by (rule conn_ok_closed) (simp add: finish_def assms(2))
qed (simp_all add: finish_def)

lemma inv_unwind:
  assumes "invariant s" and "\<not> is_open outcome"
  shows "invariant (unwind c i fr outcome s)"
proof (rule inv_local [OF assms(1), of _ c])
  show "registry_ok (unwind c i fr outcome s)"
    by (rule registry_ok_shrink [OF invD(1) [OF assms(1)]])
      (simp_all add: unwind_def finish_def remove_connected_def split: caller.splits if_splits)
  show "conn_ok (unwind c i fr outcome s) c"
    by (rule conn_ok_closed) (rule unwind_closed [OF assms(2)])
qed (simp_all add: unwind_other unwind_outbox unwind_next_sid unwind_game unwind_member)

lemma inv_notfound:
  assumes "invariant s"
  shows "invariant (s\<lparr>pc := (pc s)(c := Returned), outbox := (outbox s)(c := outbox s c @ evs)\<rparr>)"
proof (rule inv_local [OF assms(1), of _ c])
  show "registry_ok (s\<lparr>pc := (pc s)(c := Returned), outbox := (outbox s)(c := outbox s c @ evs)\<rparr>)"
    by (rule registry_ok_shrink [OF invD(1) [OF assms(1)]]) simp_all
  show "conn_ok (s\<lparr>pc := (pc s)(c := Returned), outbox := (outbox s)(c := outbox s c @ evs)\<rparr>) c"
    by (rule conn_ok_closed) simp
qed simp_all

lemma inv_rejected:
  assumes "invariant s" and "pc s c = InPlay i p fr"
  shows "invariant (s\<lparr>outbox := (outbox s)(c := outbox s c @ [Error_event msg])\<rparr>)"
    (is "invariant ?s'")
proof (rule inv_local [OF assms(1), of _ c])
  show "registry_ok ?s'"
    by (rule registry_ok_shrink [OF invD(1) [OF assms(1)]]) simp_all
  have ok: "conn_ok s c" by (rule invD(2) [OF assms(1)])
  show "conn_ok ?s' c"
  proof (rule conn_okI)
    assume "pc ?s' c = AwaitInit"
    with assms(2) show "outbox ?s' c = []" by simp
  next
    fix j assume a: "session_of (pc ?s' c) = Some j"
    then have b: "session_of (pc s c) = Some j" by simp
    show "j < next_sid ?s'" using conn_okD(2) [OF ok b] by simp
    show "c \<in> connected (heap ?s' j)" using conn_okD(3) [OF ok b] by simp
    have "caught_up (moves (game (heap s j))) (pending (pc s c)) (outbox s c @ [Error_event msg])"
      by (rule caught_up_noise [OF conn_okD(4) [OF ok b]]) simp
    then show "caught_up (moves (game (heap ?s' j))) (pending (pc ?s' c)) (outbox ?s' c)" by simp
  next
    fix j assume "c \<in> connected (heap ?s' j)" and "is_open (pc ?s' c)"
    then show "session_of (pc ?s' c) = Some j" using conn_okD(5) [OF ok, of j] by simp
  next
    fix jk assume "frame_of (pc ?s' c) = Some (start_frame jk)"
    then show "\<exists>i p. pc ?s' c = InPlay i p (start_frame jk)"
      using conn_okD(6) [OF ok, of jk] by simp
  next
    fix jk j assume "frame_of (pc ?s' c) = Some (start_frame jk)" and "session_of (pc ?s' c) = Some j"
    then show "filter is_play (outbox ?s' c) = map play_event_of (moves (game (heap ?s' j)))"
      using conn_okD(7) [OF ok, of jk j] by simp
  qed
qed simp_all

lemma inv_replay:
  assumes "invariant s" and "pc s c = InReplay i fr rest"
  shows "invariant (replay c i fr rest s)"
proof -
  have ok: "conn_ok s c" by (rule invD(2) [OF assms(1)])
  have ses: "session_of (pc s c) = Some i" using assms(2) by simp
  have fr: "fr = join_frame \<or> fr = watch_frame"
  proof (cases fr)
    case (start_frame jk)
    with assms(2) have "frame_of (pc s c) = Some (start_frame jk)" by simp
    from conn_okD(6) [OF ok this] assms(2) show ?thesis by simp
  qed simp_all
  show ?thesis
  proof (cases rest)
    case Nil
    have eq: "replay c i fr rest s = s\<lparr>pc := (pc s)(c := after_replay i fr)\<rparr>" (is "_ = ?s'")
      using Nil by simp
    have ar: "session_of (after_replay i fr) = Some i" "pending (after_replay i fr) = []"
      "is_open (after_replay i fr)" "\<And>jk. frame_of (after_replay i fr) \<noteq> Some (start_frame jk)"
      using fr by auto
    show ?thesis
      unfolding eq
    proof (rule inv_local [OF assms(1), of _ c])
      show "registry_ok ?s'"
        by (rule registry_ok_shrink [OF invD(1) [OF assms(1)]]) simp_all
      show "conn_ok ?s' c"
      proof (rule conn_okI)
        assume "pc ?s' c = AwaitInit"
        with fr show "outbox ?s' c = []" by auto
      next
        fix j assume "session_of (pc ?s' c) = Some j"
        then have j: "j = i" using ar(1) by simp
        show "j < next_sid ?s'" using conn_okD(2) [OF ok ses] j by simp
        show "c \<in> connected (heap ?s' j)" using conn_okD(3) [OF ok ses] j by simp
        show "caught_up (moves (game (heap ?s' j))) (pending (pc ?s' c)) (outbox ?s' c)"
          using conn_okD(4) [OF ok ses] j assms(2) Nil ar(2) by simp
      next
        fix j assume "c \<in> connected (heap ?s' j)" and "is_open (pc ?s' c)"
        then have "session_of (pc s c) = Some j"
          using conn_okD(5) [OF ok, of j] assms(2) by simp
        with ses ar(1) show "session_of (pc ?s' c) = Some j" by simp
      next
        fix jk assume "frame_of (pc ?s' c) = Some (start_frame jk)"
        with ar(4) show "\<exists>i p. pc ?s' c = InPlay i p (start_frame jk)" by simp
      next
        fix jk j assume "frame_of (pc ?s' c) = Some (start_frame jk)"
        with ar(4) show "filter is_play (outbox ?s' c) = map play_event_of (moves (game (heap ?s' j)))"
          by simp
      qed
    qed simp_all
  next
    case (Cons mv rest')
    have eq: "replay c i fr rest s = s\<lparr>pc := (pc s)(c := InReplay i fr rest'),
        outbox := (outbox s)(c := outbox s c @ [play_event_of mv])\<rparr>" (is "_ = ?s'")
      using Cons by (cases mv) (simp add: send_def Let_def)
    show ?thesis
      unfolding eq
    proof (rule inv_local [OF assms(1), of _ c])
      show "registry_ok ?s'"
        by (rule registry_ok_shrink [OF invD(1) [OF assms(1)]]) simp_all
      show "conn_ok ?s' c"
      proof (rule conn_okI)
        assume "pc ?s' c = AwaitInit"
        then show "outbox ?s' c = []" by simp
      next
        fix j assume "session_of (pc ?s' c) = Some j"
        then have j: "j = i" by simp
        show "j < next_sid ?s'" using conn_okD(2) [OF ok ses] j by simp
        show "c \<in> connected (heap ?s' j)" using conn_okD(3) [OF ok ses] j by simp
        have "caught_up (moves (game (heap s i))) (mv # rest') (outbox s c)"
          using conn_okD(4) [OF ok ses] assms(2) Cons by simp
        from caught_up_replay_step [OF this]
        show "caught_up (moves (game (heap ?s' j))) (pending (pc ?s' c)) (outbox ?s' c)"
          using j by simp
      next
        fix j assume "c \<in> connected (heap ?s' j)" and "is_open (pc ?s' c)"
        then have "session_of (pc s c) = Some j"
          using conn_okD(5) [OF ok, of j] assms(2) by simp
        with ses show "session_of (pc ?s' c) = Some j" by simp
      next
        fix jk assume "frame_of (pc ?s' c) = Some (start_frame jk)"
        with fr show "\<exists>i p. pc ?s' c = InPlay i p (start_frame jk)" by auto
      next
        fix jk j assume "frame_of (pc ?s' c) = Some (start_frame jk)"
        with fr show "filter is_play (outbox ?s' c) = map play_event_of (moves (game (heap ?s' j)))"
          by auto
      qed
    qed simp_all
  qed
qed

lemma inv_attach:
  assumes "invariant s" and "pc s c = AwaitInit" and "i < next_sid s"
    and fr: "fr = join_frame \<or> fr = watch_frame"
  shows "invariant (attach c i fr s)"
proof -
  have ok: "conn_ok s c" by (rule invD(2) [OF assms(1)])
  have empty: "outbox s c = []" by (rule conn_okD(1) [OF ok assms(2)])
  have nowhere: "c \<notin> connected (heap s j)" for j
    using conn_okD(5) [OF ok, of j] assms(2) by auto
  define q where "q = (case moves (game (heap s i)) of [] \<Rightarrow> after_replay i fr
                        | mv # rest \<Rightarrow> InReplay i fr rest)"
  define out where "out = (case moves (game (heap s i)) of [] \<Rightarrow> []
                        | mv # rest \<Rightarrow> [play_event_of mv])"
  have eq: "attach c i fr s =
      s\<lparr>heap := (heap s)(i := (heap s i)\<lparr>connected := insert c (connected (heap s i))\<rparr>),
        pc := (pc s)(c := q), outbox := (outbox s)(c := out)\<rparr>" (is "_ = ?s'")
  proof -
    have "(outbox s)(c := []) = outbox s" using empty by (auto simp: fun_eq_iff)
    then show ?thesis
      unfolding q_def out_def using empty by (simp add: attach_eq split: list.splits)
  qed
  have q: "session_of q = Some i" "is_open q" "q \<noteq> AwaitInit"
    "\<And>jk. frame_of q \<noteq> Some (start_frame jk)"
    unfolding q_def using fr by (auto split: list.splits)
  have cu: "caught_up (moves (game (heap s i))) (pending q) out"
    unfolding q_def out_def using fr
    by (auto split: list.splits simp: caught_up_empty caught_up_first)
  show ?thesis
    unfolding eq
  proof (rule inv_local [OF assms(1), of _ c])
    show "registry_ok ?s'"
      by (rule registry_ok_shrink [OF invD(1) [OF assms(1)]]) simp_all
    show "conn_ok ?s' c"
    proof (rule conn_okI)
      assume "pc ?s' c = AwaitInit"
      with q(3) show "outbox ?s' c = []" by simp
    next
      fix j assume "session_of (pc ?s' c) = Some j"
      then have j: "j = i" using q(1) by simp
      show "j < next_sid ?s'" using assms(3) j by simp
      show "c \<in> connected (heap ?s' j)" using j by simp
      show "caught_up (moves (game (heap ?s' j))) (pending (pc ?s' c)) (outbox ?s' c)"
        using cu j by simp
    next
      fix j assume "c \<in> connected (heap ?s' j)" and "is_open (pc ?s' c)"
      then have "j = i" using nowhere [of j] by (simp split: if_splits)
      with q(1) show "session_of (pc ?s' c) = Some j" by simp
    next
      fix jk assume "frame_of (pc ?s' c) = Some (start_frame jk)"
      with q(4) show "\<exists>i p. pc ?s' c = InPlay i p (start_frame jk)" by simp
    next
      fix jk j assume "frame_of (pc ?s' c) = Some (start_frame jk)"
      with q(4) show "filter is_play (outbox ?s' c) = map play_event_of (moves (game (heap ?s' j)))"
        by simp
    qed
  qed (auto split: if_splits)
qed

lemma inv_start:
  assumes "invariant s" and "pc s c = AwaitInit"
  shows "invariant (s\<lparr>JOIN := (JOIN s)(jk \<mapsto> next_sid s),
      WATCH := (WATCH s)(wk \<mapsto> next_sid s),
      heap := (heap s)(next_sid s := \<lparr>game = Connect4 R, connected = {c}\<rparr>),
      next_sid := Suc (next_sid s),
      pc := (pc s)(c := InPlay (next_sid s) PLAYER1 (start_frame jk)),
      outbox := (outbox s)(c := outbox s c @ [Init_event jk wk])\<rparr>)" (is "invariant ?s'")
proof -
  have ok: "conn_ok s c" by (rule invD(2) [OF assms(1)])
  have reg: "registry_ok s" by (rule invD(1) [OF assms(1)])
  have empty: "outbox s c = []" by (rule conn_okD(1) [OF ok assms(2)])
  have nowhere: "c \<notin> connected (heap s j)" for j
    using conn_okD(5) [OF ok, of j] assms(2) by auto
  show ?thesis
  proof (rule inv_local [OF assms(1), of _ c])
    show "registry_ok ?s'"
      using reg unfolding registry_ok_def by (auto simp: less_Suc_eq)
    show "conn_ok ?s' c"
    proof (rule conn_okI)
      assume "pc ?s' c = AwaitInit"
      then show "outbox ?s' c = []" by simp
    next
      fix j assume "session_of (pc ?s' c) = Some j"
      then have j: "j = next_sid s" by simp
      show "j < next_sid ?s'" using j by simp
      show "c \<in> connected (heap ?s' j)" using j by simp
      show "caught_up (moves (game (heap ?s' j))) (pending (pc ?s' c)) (outbox ?s' c)"
        using j empty by (simp add: Connect4_def caught_up_empty)
    next
      fix j assume "c \<in> connected (heap ?s' j)" and "is_open (pc ?s' c)"
      then have "j = next_sid s" using nowhere [of j] by (simp split: if_splits)
      then show "session_of (pc ?s' c) = Some j" by simp
    next
      fix jk' assume "frame_of (pc ?s' c) = Some (start_frame jk')"
      then show "\<exists>i p. pc ?s' c = InPlay i p (start_frame jk')" by simp
    next
      fix jk' j assume "frame_of (pc ?s' c) = Some (start_frame jk')"
        and "session_of (pc ?s' c) = Some j"
      then show "filter is_play (outbox ?s' c) = map play_event_of (moves (game (heap ?s' j)))"
        using empty by (simp add: Connect4_def)
    qed
  qed (auto split: if_splits)
qed

lemma inv_accepted:
  assumes inv: "invariant s" and pc: "pc s c = InPlay i p fr"
    and evs: "filter is_play evs = [play_event_of mv]"
    and g': "moves g' = moves (game (heap s i)) @ [mv]"
  shows "invariant (s\<lparr>heap := (heap s)(i := (heap s i)\<lparr>game := g'\<rparr>),
      outbox := (\<lambda>c'. outbox s c' @
        (if c' \<in> connected (heap s i) \<and> is_open (pc s c') then evs else []))\<rparr>)"
    (is "invariant ?s'")
  unfolding invariant_def
proof (intro conjI allI)
  show "registry_ok ?s'"
    by (rule registry_ok_shrink [OF invD(1) [OF inv]]) simp_all
next
  fix c'
  have ok: "conn_ok s c'" by (rule invD(2) [OF inv])
  have mem: "(c' \<in> connected (heap ?s' j)) = (c' \<in> connected (heap s j))" for j by simp
  show "conn_ok ?s' c'"
  proof (cases "c' \<in> connected (heap s i) \<and> is_open (pc s c')")
    case True
    then have ses: "session_of (pc s c') = Some i"
      using conn_okD(5) [OF ok, of i] by simp
    have out: "outbox ?s' c' = outbox s c' @ evs" using True by simp
    show ?thesis
    proof (rule conn_okI)
      assume "pc ?s' c' = AwaitInit"
      with ses show "outbox ?s' c' = []" by simp
    next
      fix j assume "session_of (pc ?s' c') = Some j"
      with ses have j: "j = i" by simp
      show "j < next_sid ?s'" using conn_okD(2) [OF ok ses] j by simp
      show "c' \<in> connected (heap ?s' j)" using True j by simp
      have "caught_up (moves (game (heap s i)) @ [mv]) (pending (pc s c')) (outbox s c' @ evs)"
        by (rule caught_up_live_step [OF conn_okD(4) [OF ok ses] evs])
      then show "caught_up (moves (game (heap ?s' j))) (pending (pc ?s' c')) (outbox ?s' c')"
        unfolding out using j g' by simp
    next
      fix j assume "c' \<in> connected (heap ?s' j)" and "is_open (pc ?s' c')"
      then have "c' \<in> connected (heap s j)" and "is_open (pc s c')"
        unfolding mem by simp_all
      then show "session_of (pc ?s' c') = Some j"
        using conn_okD(5) [OF ok, of j] by simp
    next
      fix jk assume "frame_of (pc ?s' c') = Some (start_frame jk)"
      then show "\<exists>i p. pc ?s' c' = InPlay i p (start_frame jk)"
        using conn_okD(6) [OF ok, of jk] by simp
    next
      fix jk j assume a: "frame_of (pc ?s' c') = Some (start_frame jk)"
        and b: "session_of (pc ?s' c') = Some j"
      from b ses have j: "j = i" by simp
      have "filter is_play (outbox s c') = map play_event_of (moves (game (heap s i)))"
        using conn_okD(7) [OF ok _ ses, of jk] a by simp
      then show "filter is_play (outbox ?s' c') = map play_event_of (moves (game (heap ?s' j)))"
        unfolding out using j g' evs by simp
    qed
  next
    case False
    have out: "outbox ?s' c' = outbox s c'" using False by auto
    have other: "j \<noteq> i" if "session_of (pc s c') = Some j" for j
    proof
      assume "j = i"
      with that conn_okD(3) [OF ok that] session_of_open [OF that] False show False by simp
    qed
    show ?thesis
    proof (rule conn_okI)
      assume "pc ?s' c' = AwaitInit"
      then show "outbox ?s' c' = []" unfolding out using conn_okD(1) [OF ok] by simp
    next
      fix j assume "session_of (pc ?s' c') = Some j"
      then have ses: "session_of (pc s c') = Some j" by simp
      note ne = other [OF ses]
      show "j < next_sid ?s'" using conn_okD(2) [OF ok ses] by simp
      show "c' \<in> connected (heap ?s' j)" unfolding mem by (rule conn_okD(3) [OF ok ses])
      show "caught_up (moves (game (heap ?s' j))) (pending (pc ?s' c')) (outbox ?s' c')"
        unfolding out using conn_okD(4) [OF ok ses] ne by simp
    next
      fix j assume "c' \<in> connected (heap ?s' j)" and "is_open (pc ?s' c')"
      then have "c' \<in> connected (heap s j)" and "is_open (pc s c')"
        unfolding mem by simp_all
      then show "session_of (pc ?s' c') = Some j"
        using conn_okD(5) [OF ok, of j] by simp
    next
      fix jk assume "frame_of (pc ?s' c') = Some (start_frame jk)"
      then show "\<exists>i p. pc ?s' c' = InPlay i p (start_frame jk)"
        using conn_okD(6) [OF ok, of jk] by simp
    next
      fix jk j assume a: "frame_of (pc ?s' c') = Some (start_frame jk)"
        and b: "session_of (pc ?s' c') = Some j"
      then have ses: "session_of (pc s c') = Some j" by simp
      note ne = other [OF ses]
      have "filter is_play (outbox s c') = map play_event_of (moves (game (heap s j)))"
        using conn_okD(7) [OF ok _ ses, of jk] a by simp
      then show "filter is_play (outbox ?s' c') = map play_event_of (moves (game (heap ?s' j)))"
        unfolding out using ne by simp
    qed
  qed
qed

lemma play_cases:
  obtains (raised) e where "play R c i p fr m s = unwind c i fr (Raised e) s"
  | (rejected) msg where
      "play R c i p fr m s = s\<lparr>outbox := (outbox s)(c := outbox s c @ [Error_event msg])\<rparr>"
  | (accepted) column r e' where
      "play R c i p fr m s =
         s\<lparr>heap := (heap s)(i := (heap s i)\<lparr>game := (game (heap s i))
               \<lparr>engine := e', moves := moves (game (heap s i)) @ [(p, column, r)]\<rparr>\<rparr>),
           outbox := (\<lambda>c'. outbox s c' @
             (if c' \<in> connected (heap s i) \<and> is_open (pc s c')
              then Play_event p column r # (if winner R e' \<noteq> None then [Win_event p] else [])
              else []))\<rparr>"
proof (cases "play_column m")
  case (Inl e)
  then have "play R c i p fr m s = unwind c i fr (Raised e) s" by (simp add: play_def)
  then show ?thesis by (rule raised)
next
  case (Inr column)
  show ?thesis
  proof (cases "attempt R (engine (game (heap s i))) p column")
    case (Row r e')
    with Inr have "play R c i p fr m s =
         s\<lparr>heap := (heap s)(i := (heap s i)\<lparr>game := (game (heap s i))
               \<lparr>engine := e', moves := moves (game (heap s i)) @ [(p, column, r)]\<rparr>\<rparr>),
           outbox := (\<lambda>c'. outbox s c' @
             (if c' \<in> connected (heap s i) \<and> is_open (pc s c')
              then Play_event p column r # (if winner R e' \<noteq> None then [Win_event p] else [])
              else []))\<rparr>"
      by (simp add: play_def game_play_def broadcast_def game_winner_def Let_def fun_eq_iff)
    then show ?thesis by (rule accepted)
  next
    case (RuntimeError msg)
    with Inr have "play R c i p fr m s =
        s\<lparr>outbox := (outbox s)(c := outbox s c @ [Error_event msg])\<rparr>"
      by (simp add: play_def game_play_def error_def send_def)
    then show ?thesis by (rule rejected)
  next
    case OtherError
    with Inr have "play R c i p fr m s = unwind c i fr (Raised EngineFault) s"
      by (simp add: play_def game_play_def)
    then show ?thesis by (rule raised)
  qed
qed

lemma lookup_cases:
  obtains (found) k i where "v = JStr k" "d k = Some i" "getitem d v = Inr i"
  | (missing) "getitem d v = Inl KeyError"
  | (unhashable) "getitem d v = Inl TypeError"
proof (cases v)
  case (JStr k)
  show ?thesis
  proof (cases "d k")
    case None
    with JStr have "getitem d v = Inl KeyError" by simp
    then show ?thesis by (rule missing)
  next
    case (Some i)
    with JStr have "getitem d v = Inr i" by simp
    with JStr Some show ?thesis by (rule found)
  qed
next
  case (JInt n)
  then have "getitem d v = Inl KeyError" by simp
  then show ?thesis by (rule missing)
next
  case JAtom
  then have "getitem d v = Inl KeyError" by simp
  then show ?thesis by (rule missing)
next
  case JCompound
  then have "getitem d v = Inl TypeError" by simp
  then show ?thesis by (rule unhashable)
qed

lemma inv_join:
  assumes "invariant s" and "pc s c = AwaitInit"
  shows "invariant (join c v s)"
  using lookup_cases [where v = v and d = "JOIN s"]
proof cases
  case (found k i)
  then have "i < next_sid s"
    using invD(1) [OF assms(1)] unfolding registry_ok_def by blast
  from inv_attach [OF assms this, of join_frame] found show ?thesis
    by (simp add: join_def)
next
  case missing
  then show ?thesis
    by (simp add: join_not_found inv_notfound [OF assms(1)])
next
  case unhashable
  then show ?thesis
    by (simp add: join_def inv_finish [OF assms(1)])
qed

lemma inv_watch:
  assumes "invariant s" and "pc s c = AwaitInit"
  shows "invariant (watch c v s)"
  using lookup_cases [where v = v and d = "WATCH s"]
proof cases
  case (found k i)
  then have "i < next_sid s"
    using invD(1) [OF assms(1)] unfolding registry_ok_def by blast
  from inv_attach [OF assms this, of watch_frame] found show ?thesis
    by (simp add: watch_def)
next
  case missing
  then show ?thesis
    by (simp add: watch_not_found inv_notfound [OF assms(1)])
next
  case unhashable
  then show ?thesis
    by (simp add: watch_def inv_finish [OF assms(1)])
qed

lemma start_eq:
  "start R c ent s =
     s\<lparr>JOIN := (JOIN s)(fst (token_urlsafe 12 ent) \<mapsto> next_sid s),
       WATCH := (WATCH s)(fst (token_urlsafe 12 (snd (token_urlsafe 12 ent))) \<mapsto> next_sid s),
       heap := (heap s)(next_sid s := \<lparr>game = Connect4 R, connected = {c}\<rparr>),
       next_sid := Suc (next_sid s),
       pc := (pc s)(c := InPlay (next_sid s) PLAYER1 (start_frame (fst (token_urlsafe 12 ent)))),
       outbox := (outbox s)(c := outbox s c @
         [Init_event (fst (token_urlsafe 12 ent))
            (fst (token_urlsafe 12 (snd (token_urlsafe 12 ent))))])\<rparr>"
  by (simp add: start_def send_def Let_def split: prod.splits)

lemma inv_handler:
  assumes "invariant s" and "pc s c = AwaitInit"
  shows "invariant (handler R c m ent s)"
proof (cases "subscript m ''type''")
  case (Inl e)
  then show ?thesis by (simp add: handler_def inv_finish [OF assms(1)])
next
  case (Inr t)
  show ?thesis
  proof (cases "t = JStr ''init''")
    case False
    with Inr show ?thesis by (simp add: handler_def inv_finish [OF assms(1)])
  next
    case True
    show ?thesis
    proof (cases "subscript m ''join''")
      case (Inr k)
      with \<open>subscript m ''type'' = Inr t\<close> True show ?thesis
        by (simp add: handler_def inv_join [OF assms])
    next
      case j: (Inl e)
      show ?thesis
      proof (cases "subscript m ''watch''")
        case (Inr k)
        with \<open>subscript m ''type'' = Inr t\<close> True j show ?thesis
          by (simp add: handler_def inv_watch [OF assms])
      next
        case (Inl e')
        have "invariant (start R c ent s)"
          unfolding start_eq by (rule inv_start [OF assms])
        with \<open>subscript m ''type'' = Inr t\<close> True j Inl show ?thesis
          by (simp add: handler_def)
      qed
    qed
  qed
qed

lemma inv_play:
  assumes "invariant s" and "pc s c = InPlay i p fr"
  shows "invariant (play R c i p fr m s)"
  using play_cases [where R = R and c = c and i = i and p = p and fr = fr and m = m and s = s]
proof cases
  case (raised e)
  then show ?thesis by (simp add: inv_unwind [OF assms(1)])
next
  case (rejected msg)
  then show ?thesis by (simp add: inv_rejected [OF assms])
next
  case (accepted column r e')
  have "invariant (s\<lparr>heap := (heap s)(i := (heap s i)\<lparr>game := (game (heap s i))
               \<lparr>engine := e', moves := moves (game (heap s i)) @ [(p, column, r)]\<rparr>\<rparr>),
           outbox := (\<lambda>c'. outbox s c' @
             (if c' \<in> connected (heap s i) \<and> is_open (pc s c')
              then Play_event p column r # (if winner R e' \<noteq> None then [Win_event p] else [])
              else []))\<rparr>)"
    by (rule inv_accepted [OF assms, where mv = "(p, column, r)"]) simp_all
  with accepted show ?thesis by simp
qed

lemma inv_close:
  assumes "invariant s"
  shows "invariant (close c clean s)"
  using assms
  by (cases "pc s c") (simp_all add: close_def inv_finish inv_unwind)

lemma inv_step:
  assumes "invariant s"
  shows "invariant (step R a s)"
proof (cases a)
  case (Recv c m ent)
  then show ?thesis
    using assms by (cases "pc s c") (simp_all add: inv_handler inv_play)
next
  case (Resume c)
  then show ?thesis
    using assms by (cases "pc s c") (simp_all add: inv_replay)
next
  case (Close c clean)
  then show ?thesis
    using assms by (simp add: inv_close)
qed

lemma inv_run: "invariant s \<Longrightarrow> invariant (run R s as)"
  by (induction as arbitrary: s) (simp_all add: inv_step del: step.simps)

lemma inv_init: "invariant (init R)"
  by (simp add: invariant_def registry_ok_def conn_ok_def init_def)

lemma race5:
  "take 5 race = [Recv 0 init_msg zeros, Recv 1 (join_msg tokA) zeros,
     Recv 0 (play_msg 3) zeros, Recv 1 (play_msg 3) zeros, Recv 2 (watch_msg tokA) zeros]"
  by (simp add: race_def)

lemma run_race5: "run connect4 (init connect4) (take 5 race) = s5"
  by (simp only: race5 run.simps init_connect4 step1 step2 step3 step4 step5)

lemma s5_facts:
  "pc s5 2 = InReplay 0 watch_frame [m2]"
  "moves (game (heap s5 0)) = [m1, m2]"
  by (simp_all add: s5_def s4_def s3_def s2_def s1_def s0_def g2_def)

lemma m2_neq_m3: "play_event_of m3 \<noteq> play_event_of m2"
  by (simp add: m2_def m3_def)

lemma join_array_fields:
  "subscript join_array_msg ''type'' = Inr (JStr ''init'')"
  "subscript join_array_msg ''join'' = Inr JCompound"
  by (simp_all add: join_array_msg_def)

lemma s1_idle: "outbox s1 (Suc 0) = []"
  by (simp add: s1_def s0_def)

lemma join_array_step:
  "step connect4 (Recv 1 join_array_msg zeros) s1 = finish 1 (Raised TypeError) s1"
proof -
  have "pc s1 1 = AwaitInit" using s1_facts(2) by simp
  then have "step connect4 (Recv 1 join_array_msg zeros) s1 = join 1 JCompound s1"
    by (rule handler_join [OF _ join_array_fields])
  then show ?thesis by (simp add: join_def)
qed

lemma getitem_KeyError_iff:
  "getitem d k = Inl KeyError \<longleftrightarrow> k \<noteq> JCompound \<and> (\<forall>key. k = JStr key \<longrightarrow> d key = None)"
  by (cases k) (auto split: option.splits)

subsection \<open>Tokens are as many as their random bytes\<close>

lemma distinct_b64_alphabet: "distinct b64_alphabet"
  by (simp add: b64_alphabet_def)

lemma length_b64_alphabet: "length b64_alphabet = 64"
  by (simp add: b64_alphabet_def)

lemma b64_char_inj: "b64_char i = b64_char j \<Longrightarrow> i mod 64 = j mod 64"
  unfolding b64_char_def
  using nth_eq_iff_index_eq [OF distinct_b64_alphabet, of "i mod 64" "j mod 64"]
  by (simp add: length_b64_alphabet)

lemma sextets_inj:
  fixes n m :: nat
  assumes "n < 16777216" "m < 16777216"
    and "(n div 262144) mod 64 = (m div 262144) mod 64"
    and "(n div 4096) mod 64 = (m div 4096) mod 64"
    and "(n div 64) mod 64 = (m div 64) mod 64"
    and "n mod 64 = m mod 64"
  shows "n = m"
proof -
  have d: "k = 64 * (k div 64) + k mod 64" for k :: nat by simp
  have e1: "n div 64 = m div 64"
  proof -
    have e2: "n div 64 div 64 = m div 64 div 64"
    proof -
      have e3: "n div 64 div 64 div 64 = m div 64 div 64 div 64"
      proof -
        have "n div 64 div 64 div 64 < 64" "m div 64 div 64 div 64 < 64"
          using assms(1,2) by simp_all
        moreover have "n div 64 div 64 div 64 = n div 262144" "m div 64 div 64 div 64 = m div 262144"
          by (simp_all add: div_mult2_eq [symmetric])
        ultimately show ?thesis using assms(3) by simp
      qed
      have "n div 64 div 64 mod 64 = m div 64 div 64 mod 64"
        using assms(4) by (simp add: div_mult2_eq [symmetric])
      with e3 d [of "n div 64 div 64"] d [of "m div 64 div 64"] show ?thesis by simp
    qed
    with assms(5) d [of "n div 64"] d [of "m div 64"] show ?thesis by simp
  qed
  with assms(6) d [of n] d [of m] show ?thesis by simp
qed

lemma byte_bound: "unat (a :: byte) < 256"
  using unsigned_less [of a, where 'a = nat] by simp

lemma sextet_chars_inj:
  assumes "n < 16777216" "m < 16777216"
    and "b64_char (n div 262144) = b64_char (m div 262144)"
    and "b64_char (n div 4096) = b64_char (m div 4096)"
    and "b64_char (n div 64) = b64_char (m div 64)"
    and "b64_char n = b64_char m"
  shows "n = m"
  by (rule sextets_inj [OF assms(1,2)]) (rule b64_char_inj, rule assms)+

lemma small_div: "n < 262144 \<Longrightarrow> n div 262144 = (0::nat)"
  by simp

lemma base_digits:
  fixes q r k :: nat
  assumes "r < k"
  shows "(q * k + r) div k = q" and "(q * k + r) mod k = r"
  using assms by simp_all

lemma digits3:
  fixes x y z :: nat
  assumes "y < 256" and "z < 256"
  shows "(x * 65536 + y * 256 + z) div 65536 = x"
    and "(x * 65536 + y * 256 + z) div 256 mod 256 = y"
    and "(x * 65536 + y * 256 + z) mod 256 = z"
proof -
  have low: "y * 256 + z < 65536" using assms by simp
  have assoc: "x * 65536 + y * 256 + z = x * 65536 + (y * 256 + z)" by (simp only: add.assoc)
  show "(x * 65536 + y * 256 + z) div 65536 = x"
    by (simp only: assoc base_digits(1) [OF low])
  have shape: "x * 65536 + y * 256 + z = (x * 256 + y) * 256 + z" by simp
  show "(x * 65536 + y * 256 + z) div 256 mod 256 = y"
    by (simp only: shape base_digits(1) [OF assms(2)] base_digits(2) [OF assms(1)])
  show "(x * 65536 + y * 256 + z) mod 256 = z"
    by (simp only: shape base_digits(2) [OF assms(2)])
qed

lemma triple_inj:
  fixes a b c a' b' c' :: byte
  assumes "unat a * 65536 + unat b * 256 + unat c = unat a' * 65536 + unat b' * 256 + unat c'"
  shows "a = a' \<and> b = b' \<and> c = c'"
proof -
  note d = digits3 [OF byte_bound byte_bound]
  have "unat a = unat a'"
    using arg_cong [OF assms, of "\<lambda>n. n div 65536"] by (simp only: d)
  moreover have "unat b = unat b'"
    using arg_cong [OF assms, of "\<lambda>n. n div 256 mod 256"] by (simp only: d)
  moreover have "unat c = unat c'"
    using arg_cong [OF assms, of "\<lambda>n. n mod 256"] by (simp only: d)
  ultimately show ?thesis by (simp add: word_unat_eq_iff)
qed

lemma digits2:
  fixes x y :: nat
  assumes "y < 256"
  shows "(x * 1024 + y * 4) div 1024 = x" and "(x * 1024 + y * 4) mod 1024 div 4 = y"
proof -
  have low: "y * 4 < 1024" using assms by simp
  show "(x * 1024 + y * 4) div 1024 = x"
    by (rule base_digits(1) [OF low])
  have "(x * 1024 + y * 4) mod 1024 = y * 4"
    by (rule base_digits(2) [OF low])
  then show "(x * 1024 + y * 4) mod 1024 div 4 = y" by simp
qed

lemma pair_inj:
  fixes a b a' b' :: byte
  assumes "unat a * 1024 + unat b * 4 = unat a' * 1024 + unat b' * 4"
  shows "a = a' \<and> b = b'"
proof -
  note d = digits2 [OF byte_bound]
  have "unat a = unat a'"
    using arg_cong [OF assms, of "\<lambda>n. n div 1024"] by (simp only: d)
  moreover have "unat b = unat b'"
    using arg_cong [OF assms, of "\<lambda>n. n mod 1024 div 4"] by (simp only: d)
  ultimately show ?thesis by (simp add: word_unat_eq_iff)
qed

lemma urlsafe_b64encode_inj:
  "length xs = length ys \<Longrightarrow> urlsafe_b64encode xs = urlsafe_b64encode ys \<Longrightarrow> xs = ys"
proof (induction xs arbitrary: ys rule: urlsafe_b64encode.induct)
  case (1 a b c rest)
  then obtain a' b' c' rest' where ys: "ys = a' # b' # c' # rest'"
    by (cases ys; cases "tl ys"; cases "tl (tl ys)") auto
  let ?n = "unat a * 65536 + unat b * 256 + unat c"
  let ?m = "unat a' * 65536 + unat b' * 256 + unat c'"
  have bn: "?n < 16777216"
    using byte_bound [of a] byte_bound [of b] byte_bound [of c] by linarith
  have bm: "?m < 16777216"
    using byte_bound [of a'] byte_bound [of b'] byte_bound [of c'] by linarith
  from "1.prems"(2) have ch: "b64_char (?n div 262144) = b64_char (?m div 262144)"
    "b64_char (?n div 4096) = b64_char (?m div 4096)"
    "b64_char (?n div 64) = b64_char (?m div 64)"
    "b64_char ?n = b64_char ?m"
    and rest: "urlsafe_b64encode rest = urlsafe_b64encode rest'"
    unfolding ys by (simp_all add: Let_def)
  have "?n = ?m" by (rule sextet_chars_inj [OF bn bm ch])
  then have "a = a' \<and> b = b' \<and> c = c'" by (rule triple_inj)
  moreover have "rest = rest'"
    using "1.IH" "1.prems"(1) rest ys by auto
  ultimately show ?case using ys by simp
next
  case (2 a b)
  then obtain a' b' where ys: "ys = [a', b']"
    by (cases ys; cases "tl ys") auto
  let ?n = "unat a * 1024 + unat b * 4"
  let ?m = "unat a' * 1024 + unat b' * 4"
  have bn: "?n < 262144" using byte_bound [of a] byte_bound [of b] by linarith
  have bm: "?m < 262144" using byte_bound [of a'] byte_bound [of b'] by linarith
  from "2.prems"(2) have ch: "b64_char (?n div 4096) = b64_char (?m div 4096)"
    "b64_char (?n div 64) = b64_char (?m div 64)"
    "b64_char ?n = b64_char ?m"
    unfolding ys by (simp_all add: Let_def)
  have "b64_char (?n div 262144) = b64_char (?m div 262144)"
    by (simp only: small_div [OF bn] small_div [OF bm])
  then have "?n = ?m"
    using bn bm by (intro sextet_chars_inj ch) simp_all
  then have "a = a' \<and> b = b'" by (rule pair_inj)
  then show ?case using ys by simp
next
  case (3 a)
  then obtain a' where ys: "ys = [a']" by (cases ys) auto
  let ?n = "unat a * 16"
  let ?m = "unat a' * 16"
  have bn: "?n < 4096" using byte_bound [of a] by linarith
  have bm: "?m < 4096" using byte_bound [of a'] by linarith
  from "3.prems"(2) have ch: "b64_char (?n div 64) = b64_char (?m div 64)" "b64_char ?n = b64_char ?m"
    unfolding ys by (simp_all add: Let_def)
  have z: "?n div 262144 = 0" "?m div 262144 = 0" "?n div 4096 = 0" "?m div 4096 = 0"
    using bn bm by simp_all
  have bn16: "?n < 16777216" "?m < 16777216" using bn bm by simp_all
  have c1: "b64_char (?n div 262144) = b64_char (?m div 262144)" by (simp only: z)
  have c2: "b64_char (?n div 4096) = b64_char (?m div 4096)" by (simp only: z)
  have "?n = ?m" by (rule sextet_chars_inj [OF bn16 c1 c2 ch])
  then have "unat a = unat a'" by simp
  then show ?case using ys by (simp add: word_unat_eq_iff)
next
  case 4
  then show ?case by simp
qed

lemma token_space:
  "inj_on urlsafe_b64encode {bs. length bs = 12}"
  "card (urlsafe_b64encode ` {bs. length bs = 12}) = 2 ^ 96"
proof -
  show inj: "inj_on urlsafe_b64encode {bs. length bs = 12}"
    by (rule inj_onI) (simp add: urlsafe_b64encode_inj)
  have "card {bs :: byte list. set bs \<subseteq> UNIV \<and> length bs = 12} = card (UNIV :: byte set) ^ 12"
    by (rule card_lists_length_eq) simp
  then have "card {bs :: byte list. length bs = 12} = 256 ^ 12"
    by (simp add: card_word)
  also have "(256::nat) ^ 12 = 2 ^ 96" by simp
  finally show "card (urlsafe_b64encode ` {bs. length bs = 12}) = 2 ^ 96"
    by (simp add: card_image [OF inj])
qed

lemma token_urlsafe_12:
  "fst (token_urlsafe 12 ent) = urlsafe_b64encode (map ent [0..<12])"
  "fst (token_urlsafe 12 (snd (token_urlsafe 12 ent))) = urlsafe_b64encode (map ent [12..<24])"
proof -
  show "fst (token_urlsafe 12 ent) = urlsafe_b64encode (map ent [0..<12])"
    by (simp add: token_urlsafe_def token_bytes_def)
  have "map (\<lambda>i. ent (i + 12)) [0..<12] = map ent (map (\<lambda>i. i + 12) [0..<12])"
    by simp
  also have "map (\<lambda>i. i + 12) [0..<12] = [12..<24]"
    by (simp add: map_add_upt)
  finally show "fst (token_urlsafe 12 (snd (token_urlsafe 12 ent))) = urlsafe_b64encode (map ent [12..<24])"
    by (simp add: token_urlsafe_def token_bytes_def)
qed

lemma s0_idle: "pc s0 0 = AwaitInit"
  by (simp add: s0_def)

section \<open>The claims\<close>

text \<open>
  C3: when the rules engine rejects a move as illegal (\<^verbatim>\<open>game.play\<close> raises
  \<^verbatim>\<open>RuntimeError\<close>), the step changes nothing but the sender's outbox, which gains one error
  event carrying the text of the exception: the move log and the rest of the game are as before,
  no other connection is sent anything, and the sender is still in its loop of \<^verbatim>\<open>play\<close>,
  ready for the next message.
\<close>

theorem illegal_move_reported_to_sender_only:
  assumes "pc s c = InPlay i p fr"
    and "play_column m = Inr column"
    and "attempt R (engine (game (heap s i))) p column = RuntimeError msg"
  shows "step R (Recv c m ent) s = s\<lparr>outbox := (outbox s)(c := outbox s c @ [Error_event msg])\<rparr>
    \<and> moves (game (heap (step R (Recv c m ent) s) i)) = moves (game (heap s i))
    \<and> pc (step R (Recv c m ent) s) c = InPlay i p fr
    \<and> (\<forall>c'. c' \<noteq> c \<longrightarrow> outbox (step R (Recv c m ent) s) c' = outbox s c')"
proof -
  have eq: "step R (Recv c m ent) s = s\<lparr>outbox := (outbox s)(c := outbox s c @ [Error_event msg])\<rparr>"
    by (rule play_rejected [OF assms])
  show ?thesis
    unfolding eq using assms(1) by simp
qed

theorem illegal_move_reported_to_sender_only_witness:
  "pc s3 0 = InPlay 0 PLAYER1 (start_frame tokA)
   \<and> play_column (play_msg 3) = Inr (JInt 3)
   \<and> attempt connect4 (engine (game (heap s3 0))) PLAYER1 (JInt 3) = RuntimeError ''Wrong turn.''
   \<and> step connect4 (Recv 0 (play_msg 3) zeros) s3
       = s3\<lparr>outbox := (outbox s3)(0 := outbox s3 0 @ [Error_event ''Wrong turn.''])\<rparr>"
proof -
  have h1: "pc s3 0 = InPlay 0 PLAYER1 (start_frame tokA)" by (rule s3_facts)
  have h2: "play_column (play_msg 3) = Inr (JInt 3)" by (rule msg_fields)
  have h3: "attempt connect4 (engine (game (heap s3 0))) PLAYER1 (JInt 3) = RuntimeError ''Wrong turn.''"
    by (simp only: s3_facts attempt_wrong_turn)
  from illegal_move_reported_to_sender_only [OF h1 h2 h3, of zeros] h1 h2 h3 show ?thesis by blast
qed

text \<open>
  C4: when the rules engine accepts a move (\<^verbatim>\<open>game.play\<close> returns a row), every connection
  that is in the game's set \<^verbatim>\<open>connected\<close> and still open is sent the play event with the
  player, the column and that row, followed by a win event naming the same player exactly when
  the engine now reports a winner; the play event comes first, and nobody else is sent anything.
\<close>

theorem accepted_move_play_then_win_broadcast:
  assumes "pc s c = InPlay i p fr"
    and "play_column m = Inr column"
    and "attempt R (engine (game (heap s i))) p column = Row r e'"
  shows "\<forall>c'. outbox (step R (Recv c m ent) s) c' = outbox s c' @
      (if c' \<in> connected (heap s i) \<and> is_open (pc s c')
       then Play_event p column r # (if winner R e' \<noteq> None then [Win_event p] else [])
       else [])"
  by (subst play_accepted [OF assms]) simp

theorem accepted_move_play_then_win_broadcast_witness:
  "pc s2 0 = InPlay 0 PLAYER1 (start_frame tokA)
   \<and> play_column (play_msg 3) = Inr (JInt 3)
   \<and> attempt connect4 (engine (game (heap s2 0))) PLAYER1 (JInt 3) = Row 0 (engine g1)
   \<and> (\<forall>c'. outbox (step connect4 (Recv 0 (play_msg 3) zeros) s2) c' = outbox s2 c' @
        (if c' \<in> connected (heap s2 0) \<and> is_open (pc s2 c')
         then Play_event PLAYER1 (JInt 3) 0 #
           (if winner connect4 (engine g1) \<noteq> None then [Win_event PLAYER1] else [])
         else []))"
proof -
  have h1: "pc s2 0 = InPlay 0 PLAYER1 (start_frame tokA)" by (rule s2_facts)
  have h2: "play_column (play_msg 3) = Inr (JInt 3)" by (rule msg_fields)
  have h3: "attempt connect4 (engine (game (heap s2 0))) PLAYER1 (JInt 3) = Row 0 (engine g1)"
    by (simp only: s2_facts attempt1)
  from accepted_move_play_then_win_broadcast [OF h1 h2 h3, of zeros] h1 h2 h3
  show ?thesis by blast
qed

text \<open>
  C5 as stated fails. A join attempt may carry a token that is a JSON array or object. Such a
  token is a key of no dictionary, but \<^verbatim>\<open>JOIN[join_key]\<close> then raises \<^verbatim>\<open>TypeError\<close>
  (the value cannot be hashed), which \<^verbatim>\<open>except KeyError\<close> does not catch: the requester is
  sent nothing at all, and the handler does not return but raises.
\<close>

theorem unhashable_token_raises_without_error_event:
  "pc s1 1 = AwaitInit
   \<and> subscript join_array_msg ''type'' = Inr (JStr ''init'')
   \<and> subscript join_array_msg ''join'' = Inr JCompound
   \<and> getitem (JOIN s1) JCompound = Inl TypeError
   \<and> pc (step connect4 (Recv 1 join_array_msg zeros) s1) 1 = Raised TypeError
   \<and> outbox (step connect4 (Recv 1 join_array_msg zeros) s1) 1 = []"
  unfolding join_array_step
  using s1_facts(2) s1_idle by (simp add: join_array_fields finish_def)

text \<open>
  C5 as the code has it: a join or watch request whose token can be hashed (a string, a number,
  a boolean or null) and is not a key of the dictionary it is looked up in (\<^verbatim>\<open>JOIN\<close>
  for a join, \<^verbatim>\<open>WATCH\<close> for a watch), so that the lookup raises \<^verbatim>\<open>KeyError\<close>,
  changes the state in two places only: the requester is sent one error event with the message
  "Game not found.", and its handler has returned. No dictionary and no game or connection set
  is touched, and whatever happens afterwards, nothing more is ever sent to that connection.
\<close>

theorem unknown_token_error_then_return:
  assumes "pc s c = AwaitInit"
    and "subscript m ''type'' = Inr (JStr ''init'')"
    and "(subscript m ''join'' = Inr k \<and> getitem (JOIN s) k = Inl KeyError)
       \<or> ((\<exists>e. subscript m ''join'' = Inl e) \<and> subscript m ''watch'' = Inr k
           \<and> getitem (WATCH s) k = Inl KeyError)"
  shows "step R (Recv c m ent) s =
      s\<lparr>pc := (pc s)(c := Returned),
        outbox := (outbox s)(c := outbox s c @ [Error_event ''Game not found.''])\<rparr>
    \<and> (\<forall>as. outbox (run R (step R (Recv c m ent) s) as) c
          = outbox s c @ [Error_event ''Game not found.''])"
proof -
  have eq: "step R (Recv c m ent) s =
      s\<lparr>pc := (pc s)(c := Returned),
        outbox := (outbox s)(c := outbox s c @ [Error_event ''Game not found.''])\<rparr>"
    using assms(3)
  proof (elim disjE conjE exE)
    assume "subscript m ''join'' = Inr k" and nf: "getitem (JOIN s) k = Inl KeyError"
    then have "step R (Recv c m ent) s = join c k s"
      using handler_join [OF assms(1,2)] by simp
    with nf show ?thesis by (simp add: join_not_found)
  next
    fix e
    assume "subscript m ''join'' = Inl e" and "subscript m ''watch'' = Inr k"
      and nf: "getitem (WATCH s) k = Inl KeyError"
    then have "step R (Recv c m ent) s = watch c k s"
      using handler_watch [OF assms(1,2)] by simp
    with nf show ?thesis by (simp add: watch_not_found)
  qed
  have "\<not> is_open (pc (step R (Recv c m ent) s) c)"
    unfolding eq by simp
  then have "\<forall>as. outbox (run R (step R (Recv c m ent) s) as) c = outbox (step R (Recv c m ent) s) c"
    by (simp add: run_terminated)
  moreover have "outbox (step R (Recv c m ent) s) c = outbox s c @ [Error_event ''Game not found.'']"
    unfolding eq by simp
  ultimately show ?thesis using eq by simp
qed

theorem unknown_token_error_then_return_witness:
  "pc s1 1 = AwaitInit
   \<and> subscript (join_msg ''nope'') ''type'' = Inr (JStr ''init'')
   \<and> subscript (join_msg ''nope'') ''join'' = Inr (JStr ''nope'')
   \<and> getitem (JOIN s1) (JStr ''nope'') = Inl KeyError
   \<and> step connect4 (Recv 1 (join_msg ''nope'') zeros) s1 =
      s1\<lparr>pc := (pc s1)(1 := Returned),
         outbox := (outbox s1)(1 := outbox s1 1 @ [Error_event ''Game not found.''])\<rparr>
   \<and> (\<forall>as. outbox (run connect4 (step connect4 (Recv 1 (join_msg ''nope'') zeros) s1) as) 1
          = outbox s1 1 @ [Error_event ''Game not found.''])"
proof -
  have h1: "pc s1 1 = AwaitInit" using s1_facts(2) by simp
  have h2: "subscript (join_msg ''nope'') ''type'' = Inr (JStr ''init'')" by (rule msg_fields)
  have h3: "subscript (join_msg ''nope'') ''join'' = Inr (JStr ''nope'')" by (rule msg_fields)
  have h4: "getitem (JOIN s1) (JStr ''nope'') = Inl KeyError"
    by (simp add: s1_facts tokA_def)
  from h3 h4 have h5: "(subscript (join_msg ''nope'') ''join'' = Inr (JStr ''nope'')
        \<and> getitem (JOIN s1) (JStr ''nope'') = Inl KeyError)
     \<or> ((\<exists>e. subscript (join_msg ''nope'') ''join'' = Inl e)
         \<and> subscript (join_msg ''nope'') ''watch'' = Inr (JStr ''nope'')
         \<and> getitem (WATCH s1) (JStr ''nope'') = Inl KeyError)" by blast
  from unknown_token_error_then_return [OF h1 h2 h5, of connect4 zeros] h1 h2 h3 h4
  show ?thesis by blast
qed



text \<open>
  C10: whenever a step ends the handler of a connection that was attached to a game, what it
  leaves depends on the function the handler was in. In \<^verbatim>\<open>start\<close> the \<^verbatim>\<open>finally\<close>
  block deletes the join key and nothing else: \<^verbatim>\<open>WATCH\<close> and every connection set are as
  before, so the first player's handle stays in the set of its game through everything that
  follows. In \<^verbatim>\<open>join\<close> and \<^verbatim>\<open>watch\<close> it takes the connection out of the set and leaves
  both dictionaries alone. This holds for every step that ends the handler: a closed connection,
  a malformed message, a fault of the rules engine.
\<close>

theorem cleanup_start_keeps_handle_join_watch_remove:
  assumes "is_open (pc s c)" and "\<not> is_open (pc (step R a s) c)"
    and "session_of (pc s c) = Some i" and "frame_of (pc s c) = Some fr"
  shows "(\<forall>jk. fr = start_frame jk \<longrightarrow>
            JOIN (step R a s) = (JOIN s)(jk := None) \<and> WATCH (step R a s) = WATCH s
            \<and> heap (step R a s) = heap s
            \<and> (\<forall>as. i < next_sid s \<longrightarrow> c \<in> connected (heap s i) \<longrightarrow>
                  c \<in> connected (heap (run R (step R a s) as) i)))
       \<and> (fr = join_frame \<or> fr = watch_frame \<longrightarrow>
            JOIN (step R a s) = JOIN s \<and> WATCH (step R a s) = WATCH s
            \<and> connected (heap (step R a s) i) = connected (heap s i) - {c})"
proof -
  from step_exit [OF assms] obtain outcome where
    eq: "step R a s = unwind c i fr outcome s" by blast
  have later: "c \<in> connected (heap (run R (step R a s) as) i)"
    if "heap (step R a s) = heap s" "i < next_sid s" "c \<in> connected (heap s i)" for as
  proof -
    have "i < next_sid (step R a s)"
      using that(2) step_next_sid [of s R a] by simp
    from run_member_terminated [OF assms(2) this, of R as] that(1,3)
    show ?thesis by simp
  qed
  have "JOIN (step R a s) = (JOIN s)(jk := None) \<and> WATCH (step R a s) = WATCH s
      \<and> heap (step R a s) = heap s" if "fr = start_frame jk" for jk
    unfolding eq that by (simp add: unwind_start_frame)
  moreover have "JOIN (step R a s) = JOIN s \<and> WATCH (step R a s) = WATCH s
      \<and> connected (heap (step R a s) i) = connected (heap s i) - {c}"
    if "fr = join_frame \<or> fr = watch_frame"
    unfolding eq using unwind_attached_frame [OF that, of c i outcome s] by simp
  ultimately show ?thesis using later by blast
qed

theorem cleanup_start_keeps_handle_join_watch_remove_witness:
  "is_open (pc s1 0) \<and> \<not> is_open (pc (step connect4 (Close 0 True) s1) 0)
   \<and> session_of (pc s1 0) = Some 0 \<and> frame_of (pc s1 0) = Some (start_frame tokA)
   \<and> JOIN (step connect4 (Close 0 True) s1) = (JOIN s1)(tokA := None)
   \<and> WATCH (step connect4 (Close 0 True) s1) = WATCH s1
   \<and> heap (step connect4 (Close 0 True) s1) = heap s1
   \<and> 0 \<in> connected (heap (run connect4 (step connect4 (Close 0 True) s1)
            [Recv 1 (watch_msg tokA) zeros]) 0)"
proof -
  have h1: "is_open (pc s1 0)" by (rule s1_more)
  have h2: "\<not> is_open (pc (step connect4 (Close 0 True) s1) 0)"
    by (simp only: close_s1 s1_closed_facts is_open.simps not_False_eq_True)
  have h3: "session_of (pc s1 0) = Some 0" by (rule s1_more)
  have h4: "frame_of (pc s1 0) = Some (start_frame tokA)" by (rule s1_more)
  have h5: "0 < next_sid s1" by (rule s1_more)
  have h6: "0 \<in> connected (heap s1 0)" by (rule s1_more)
  from cleanup_start_keeps_handle_join_watch_remove [OF h1 h2 h3 h4] h1 h2 h3 h4 h5 h6
  show ?thesis by blast
qed

text \<open>
  C1, on the code as it is: connection 0 starts a game and closes. The join token is gone, but
  the watch token still resolves to the game, and a connection that presents it afterwards is
  attached as a spectator instead of being told "Game not found.".
\<close>

theorem watch_token_outlives_first_player:
  "JOIN (run connect4 (init connect4) [Recv 0 init_msg zeros, Close 0 True]) tokA = None
   \<and> WATCH (run connect4 (init connect4) [Recv 0 init_msg zeros, Close 0 True]) tokA = Some 0
   \<and> pc (run connect4 (init connect4)
         [Recv 0 init_msg zeros, Close 0 True, Recv 1 (watch_msg tokA) zeros]) 1 = InWaitClosed 0"
  by (simp only: run.simps init_connect4 step1 close_s1 s1_closed_facts watch_after_close simp_thms)

text \<open>
  C6: a join or watch request whose token is found first puts the connection into the game's
  set and takes a copy of the move log, in the same step. Sent to that connection alone, one
  play event per move of the copy and in the order of the log, the replay then runs from send
  to send: after the request and \<open>n\<close> resumptions the first \<open>n + 1\<close> moves have been sent and
  the handler is still inside \<^verbatim>\<open>replay\<close>; only after the last one does it reach the loop of
  \<^verbatim>\<open>play\<close> as the second player, or \<^verbatim>\<open>wait_closed\<close> as a spectator.
\<close>

theorem attach_then_replay_then_live:
  assumes "pc s c = AwaitInit" and "subscript m ''type'' = Inr (JStr ''init'')"
    and "(subscript m ''join'' = Inr (JStr k) \<and> JOIN s k = Some i \<and> fr = join_frame)
       \<or> ((\<exists>e. subscript m ''join'' = Inl e) \<and> subscript m ''watch'' = Inr (JStr k)
           \<and> WATCH s k = Some i \<and> fr = watch_frame)"
  shows "connected (heap (step R (Recv c m ent) s) i) = insert c (connected (heap s i))
    \<and> (\<forall>n < length (moves (game (heap s i))).
          pc (run R s (Recv c m ent # replicate n (Resume c))) c
            = InReplay i fr (drop (Suc n) (moves (game (heap s i))))
        \<and> outbox (run R s (Recv c m ent # replicate n (Resume c))) c
            = outbox s c @ map play_event_of (take (Suc n) (moves (game (heap s i)))))
    \<and> run R s (Recv c m ent # replicate (length (moves (game (heap s i)))) (Resume c)) =
        s\<lparr>heap := (heap s)(i := (heap s i)\<lparr>connected := insert c (connected (heap s i))\<rparr>),
          pc := (pc s)(c := if fr = join_frame then InPlay i PLAYER2 join_frame else InWaitClosed i),
          outbox := (outbox s)(c := outbox s c @ map play_event_of (moves (game (heap s i))))\<rparr>"
proof -
  have st: "step R (Recv c m ent) s = attach c i fr s"
    by (rule attach_step [OF assms])
  have fr: "after_replay i fr = (if fr = join_frame then InPlay i PLAYER2 join_frame else InWaitClosed i)"
    using assms(3) by auto
  have 1: "connected (heap (step R (Recv c m ent) s) i) = insert c (connected (heap s i))"
    unfolding st by (simp add: attach_eq split: list.splits)
  have 2: "\<forall>n < length (moves (game (heap s i))).
          pc (run R s (Recv c m ent # replicate n (Resume c))) c
            = InReplay i fr (drop (Suc n) (moves (game (heap s i))))
        \<and> outbox (run R s (Recv c m ent # replicate n (Resume c))) c
            = outbox s c @ map play_event_of (take (Suc n) (moves (game (heap s i))))"
    using attach_prefix [OF st] by blast
  have 3: "run R s (Recv c m ent # replicate (length (moves (game (heap s i)))) (Resume c)) =
        s\<lparr>heap := (heap s)(i := (heap s i)\<lparr>connected := insert c (connected (heap s i))\<rparr>),
          pc := (pc s)(c := if fr = join_frame then InPlay i PLAYER2 join_frame else InWaitClosed i),
          outbox := (outbox s)(c := outbox s c @ map play_event_of (moves (game (heap s i))))\<rparr>"
    using attach_to_end [OF st] unfolding fr .
  from 1 2 3 show ?thesis by blast
qed

theorem attach_then_replay_then_live_witness:
  "pc s4 2 = AwaitInit \<and> subscript (watch_msg tokA) ''type'' = Inr (JStr ''init'')
   \<and> subscript (watch_msg tokA) ''join'' = Inl KeyError
   \<and> subscript (watch_msg tokA) ''watch'' = Inr (JStr tokA) \<and> WATCH s4 tokA = Some 0
   \<and> pc (run connect4 s4 (Recv 2 (watch_msg tokA) zeros # replicate 0 (Resume 2))) 2
        = InReplay 0 watch_frame (drop (Suc 0) (moves (game (heap s4 0))))
   \<and> run connect4 s4 (Recv 2 (watch_msg tokA) zeros
          # replicate (length (moves (game (heap s4 0)))) (Resume 2)) =
        s4\<lparr>heap := (heap s4)(0 := (heap s4 0)\<lparr>connected := insert 2 (connected (heap s4 0))\<rparr>),
           pc := (pc s4)(2 := if watch_frame = join_frame then InPlay 0 PLAYER2 join_frame
                              else InWaitClosed 0),
           outbox := (outbox s4)(2 := outbox s4 2 @ map play_event_of (moves (game (heap s4 0))))\<rparr>"
proof -
  have h1: "pc s4 2 = AwaitInit" by (rule s4_facts)
  have h2: "subscript (watch_msg tokA) ''type'' = Inr (JStr ''init'')" by (rule msg_fields)
  have h3: "subscript (watch_msg tokA) ''join'' = Inl KeyError" by (rule msg_fields)
  have h4: "subscript (watch_msg tokA) ''watch'' = Inr (JStr tokA)" by (rule msg_fields)
  have h5: "WATCH s4 tokA = Some 0" by (rule s4_facts)
  have h6: "0 < length (moves (game (heap s4 0)))" by (simp add: s4_facts)
  from h3 h4 h5 have h: "(subscript (watch_msg tokA) ''join'' = Inr (JStr tokA) \<and> JOIN s4 tokA = Some 0
          \<and> watch_frame = join_frame)
       \<or> ((\<exists>e. subscript (watch_msg tokA) ''join'' = Inl e)
           \<and> subscript (watch_msg tokA) ''watch'' = Inr (JStr tokA)
           \<and> WATCH s4 tokA = Some 0 \<and> watch_frame = watch_frame)" by blast
  from attach_then_replay_then_live [OF h1 h2 h, of connect4 zeros] h1 h2 h3 h4 h5 h6
  show ?thesis by blast
qed

text \<open>
  C9: nothing in \<^verbatim>\<open>join\<close> counts the second players. Let any number of distinct connections
  present, one after the other, a join token that is registered, each going through its replay:
  the token is still registered afterwards, all of them are in the game's connection set, and
  all of them are in the loop of \<^verbatim>\<open>play\<close> as \<^verbatim>\<open>PLAYER2\<close> at the same time.
\<close>

theorem join_admits_any_number_of_second_players:
  assumes "subscript m ''type'' = Inr (JStr ''init'')" and "subscript m ''join'' = Inr (JStr k)"
    and "distinct cs" and "\<forall>c\<in>set cs. pc s c = AwaitInit" and "JOIN s k = Some i"
  shows "JOIN (run R s (arrivals m ent (length (moves (game (heap s i)))) cs)) k = Some i
    \<and> (\<forall>c\<in>set cs. c \<in> connected (heap (run R s (arrivals m ent (length (moves (game (heap s i)))) cs)) i)
          \<and> pc (run R s (arrivals m ent (length (moves (game (heap s i)))) cs)) c
              = InPlay i PLAYER2 join_frame)"
  unfolding arrivals_run [OF assms(1,2,3,4,5)] using assms(5) by simp

theorem join_admits_any_number_of_second_players_witness:
  "JOIN (run connect4 s1 (arrivals (join_msg tokA) zeros (length (moves (game (heap s1 0)))) [1, 2]))
      tokA = Some 0
   \<and> 1 \<in> connected (heap (run connect4 s1
        (arrivals (join_msg tokA) zeros (length (moves (game (heap s1 0)))) [1, 2])) 0)
   \<and> 2 \<in> connected (heap (run connect4 s1
        (arrivals (join_msg tokA) zeros (length (moves (game (heap s1 0)))) [1, 2])) 0)
   \<and> pc (run connect4 s1 (arrivals (join_msg tokA) zeros (length (moves (game (heap s1 0)))) [1, 2])) 1
        = InPlay 0 PLAYER2 join_frame
   \<and> pc (run connect4 s1 (arrivals (join_msg tokA) zeros (length (moves (game (heap s1 0)))) [1, 2])) 2
        = InPlay 0 PLAYER2 join_frame"
proof -
  have h1: "subscript (join_msg tokA) ''type'' = Inr (JStr ''init'')" by (rule msg_fields)
  have h2: "subscript (join_msg tokA) ''join'' = Inr (JStr tokA)" by (rule msg_fields)
  have h3: "distinct [1, 2 :: nat]" by simp
  have h4: "\<forall>c\<in>set [1, 2]. pc s1 c = AwaitInit" by (simp add: s1_def s0_def)
  have h5: "JOIN s1 tokA = Some 0" by (simp add: s1_facts)
  have m: "(1::nat) \<in> set [1, 2]" "(2::nat) \<in> set [1, 2]" by simp_all
  from join_admits_any_number_of_second_players [OF h1 h2 h3 h4 h5, of connect4 zeros] m
  show ?thesis by blast
qed

text \<open>
  C2 as stated fails. In the run \<open>race\<close> connection 2 comes to watch when the log holds two
  moves; it is put into the connection set and sent the first of them; while its replay is
  suspended in that send, the first player's third move is accepted and broadcast; only then
  does the replay send the second move. Connection 2 stays attached and has been sent every
  move once, but the third before the second.
\<close>

theorem replay_overtaken_by_broadcast:
  "pc (run connect4 (init connect4) (take 5 race)) 2 = InReplay 0 watch_frame [m2]
   \<and> moves (game (heap (run connect4 (init connect4) (take 5 race)) 0)) = [m1, m2]
   \<and> pc (run connect4 (init connect4) race) 2 = InWaitClosed 0
   \<and> moves (game (heap (run connect4 (init connect4) race) 0)) = [m1, m2, m3]
   \<and> filter is_play (outbox (run connect4 (init connect4) race) 2)
        = [play_event_of m1, play_event_of m3, play_event_of m2]
   \<and> filter is_play (outbox (run connect4 (init connect4) race) 2)
        \<noteq> map play_event_of (moves (game (heap (run connect4 (init connect4) race) 0)))"
  by (simp add: run_race5 s5_facts run_race race_end m2_neq_m3 del: run.simps)

text \<open>
  C2 as the code has it: in every state the relay can reach, a connection that is in the loop
  of \<^verbatim>\<open>play\<close> or waiting in \<^verbatim>\<open>watch\<close> has been sent exactly the play events of its
  game's move log, each once. The log splits into the moves that were replayed to it and the
  moves broadcast since; the replayed ones arrived in the order of the log and the broadcast
  ones in the order they were accepted, but the two sequences may be interleaved. For the
  connection that started the game nothing is replayed, and it has been sent the play events
  in exactly the order of the log.
\<close>

theorem every_play_event_once_orders_kept_within_replay_and_live:
  assumes "pc (run R (init R) as) c = InPlay i p fr \<or> pc (run R (init R) as) c = InWaitClosed i"
  shows "(\<exists>replayed live.
            moves (game (heap (run R (init R) as) i)) = replayed @ live
          \<and> filter is_play (outbox (run R (init R) as) c)
              \<in> shuffles (map play_event_of replayed) (map play_event_of live))
    \<and> mset (filter is_play (outbox (run R (init R) as) c))
          = mset (map play_event_of (moves (game (heap (run R (init R) as) i))))
    \<and> (\<forall>jk. pc (run R (init R) as) c = InPlay i p (start_frame jk) \<longrightarrow>
          filter is_play (outbox (run R (init R) as) c)
            = map play_event_of (moves (game (heap (run R (init R) as) i))))"
proof -
  let ?s = "run R (init R) as"
  have "invariant ?s" by (rule inv_run [OF inv_init])
  then have ok: "conn_ok ?s c" by (rule invD(2))
  from assms have ses: "session_of (pc ?s c) = Some i" and pend: "pending (pc ?s c) = []"
    by auto
  from conn_okD(4) [OF ok ses] pend obtain replayed live where
    l: "moves (game (heap ?s i)) = replayed @ live"
    and sh: "filter is_play (outbox ?s c) \<in> shuffles (map play_event_of replayed) (map play_event_of live)"
    unfolding caught_up_def by auto
  have ms: "mset (filter is_play (outbox ?s c)) = mset (map play_event_of (moves (game (heap ?s i))))"
    using mset_shuffles [OF sh] l by simp
  have st: "filter is_play (outbox ?s c) = map play_event_of (moves (game (heap ?s i)))"
    if "pc ?s c = InPlay i p (start_frame jk)" for jk
    using conn_okD(7) [OF ok, of jk i] that by simp
  from l sh ms st show ?thesis by blast
qed

theorem every_play_event_once_orders_kept_within_replay_and_live_witness:
  "pc (run connect4 (init connect4) race) 2 = InWaitClosed 0
   \<and> (\<exists>replayed live.
            moves (game (heap (run connect4 (init connect4) race) 0)) = replayed @ live
          \<and> filter is_play (outbox (run connect4 (init connect4) race) 2)
              \<in> shuffles (map play_event_of replayed) (map play_event_of live))
   \<and> mset (filter is_play (outbox (run connect4 (init connect4) race) 2))
          = mset (map play_event_of (moves (game (heap (run connect4 (init connect4) race) 0))))"
proof -
  have h: "pc (run connect4 (init connect4) race) 2 = InWaitClosed 0"
    by (simp only: run_race race_end)
  then have h': "pc (run connect4 (init connect4) race) 2 = InPlay 0 PLAYER1 watch_frame
      \<or> pc (run connect4 (init connect4) race) 2 = InWaitClosed 0" by blast
  from every_play_event_once_orders_kept_within_replay_and_live [OF h'] h
  show ?thesis by blast
qed

text \<open>
  C7: a connection whose opening message names neither a join nor a watch token starts a game.
  In that one step \<^verbatim>\<open>token_urlsafe(12)\<close> is called twice, each call turning twelve bytes of
  its own from the random source into a token; the new game is entered under the first token in
  \<^verbatim>\<open>JOIN\<close> and under the second in \<^verbatim>\<open>WATCH\<close>, one entry each; the starting connection,
  and nobody else, is sent one init event with the two tokens; and the handler stands at the head
  of the loop of \<^verbatim>\<open>play\<close> with the move log of the new game empty. The text of a token
  determines its twelve bytes, so there are \<open>2 ^ 96\<close> tokens, one for every value of the 96
  random bits.
\<close>

theorem start_mints_registers_and_sends_two_tokens:
  assumes "pc s c = AwaitInit" and "subscript m ''type'' = Inr (JStr ''init'')"
    and "subscript m ''join'' = Inl e1" and "subscript m ''watch'' = Inl e2"
  shows "step R (Recv c m ent) s =
      s\<lparr>JOIN := (JOIN s)(urlsafe_b64encode (map ent [0..<12]) \<mapsto> next_sid s),
        WATCH := (WATCH s)(urlsafe_b64encode (map ent [12..<24]) \<mapsto> next_sid s),
        heap := (heap s)(next_sid s := \<lparr>game = Connect4 R, connected = {c}\<rparr>),
        next_sid := Suc (next_sid s),
        pc := (pc s)(c := InPlay (next_sid s) PLAYER1
                (start_frame (urlsafe_b64encode (map ent [0..<12])))),
        outbox := (outbox s)(c := outbox s c @
          [Init_event (urlsafe_b64encode (map ent [0..<12]))
             (urlsafe_b64encode (map ent [12..<24]))])\<rparr>
    \<and> fst (token_urlsafe 12 ent) = urlsafe_b64encode (map ent [0..<12])
    \<and> fst (token_urlsafe 12 (snd (token_urlsafe 12 ent))) = urlsafe_b64encode (map ent [12..<24])
    \<and> moves (Connect4 R) = []
    \<and> inj_on urlsafe_b64encode {bs. length bs = 12}
    \<and> card (urlsafe_b64encode ` {bs. length bs = 12}) = 2 ^ 96"
proof -
  define jk where "jk = fst (token_urlsafe 12 ent)"
  define wk where "wk = fst (token_urlsafe 12 (snd (token_urlsafe 12 ent)))"
  have t1: "token_urlsafe 12 ent = (jk, snd (token_urlsafe 12 ent))"
    by (simp add: jk_def)
  have t2: "token_urlsafe 12 (snd (token_urlsafe 12 ent)) =
      (wk, snd (token_urlsafe 12 (snd (token_urlsafe 12 ent))))"
    by (simp add: wk_def)
  have e: "step R (Recv c m ent) s =
      s\<lparr>JOIN := (JOIN s)(jk \<mapsto> next_sid s),
        WATCH := (WATCH s)(wk \<mapsto> next_sid s),
        heap := (heap s)(next_sid s := \<lparr>game = Connect4 R, connected = {c}\<rparr>),
        next_sid := Suc (next_sid s),
        pc := (pc s)(c := InPlay (next_sid s) PLAYER1 (start_frame jk)),
        outbox := (outbox s)(c := outbox s c @ [Init_event jk wk])\<rparr>"
    by (rule handler_start [OF assms t1 t2])
  have jk: "jk = urlsafe_b64encode (map ent [0..<12])"
    unfolding jk_def by (rule token_urlsafe_12(1))
  have wk: "wk = urlsafe_b64encode (map ent [12..<24])"
    unfolding wk_def by (rule token_urlsafe_12(2))
  have 1: "step R (Recv c m ent) s =
      s\<lparr>JOIN := (JOIN s)(urlsafe_b64encode (map ent [0..<12]) \<mapsto> next_sid s),
        WATCH := (WATCH s)(urlsafe_b64encode (map ent [12..<24]) \<mapsto> next_sid s),
        heap := (heap s)(next_sid s := \<lparr>game = Connect4 R, connected = {c}\<rparr>),
        next_sid := Suc (next_sid s),
        pc := (pc s)(c := InPlay (next_sid s) PLAYER1
                (start_frame (urlsafe_b64encode (map ent [0..<12])))),
        outbox := (outbox s)(c := outbox s c @
          [Init_event (urlsafe_b64encode (map ent [0..<12]))
             (urlsafe_b64encode (map ent [12..<24]))])\<rparr>"
    using e unfolding jk wk .
  have 2: "moves (Connect4 R) = []" by (simp add: Connect4_def)
  from 1 2 token_urlsafe_12 [of ent] token_space show ?thesis by blast
qed

theorem start_mints_registers_and_sends_two_tokens_witness:
  "pc s0 0 = AwaitInit \<and> subscript init_msg ''type'' = Inr (JStr ''init'')
   \<and> subscript init_msg ''join'' = Inl KeyError \<and> subscript init_msg ''watch'' = Inl KeyError
   \<and> step connect4 (Recv 0 init_msg zeros) s0 =
      s0\<lparr>JOIN := (JOIN s0)(urlsafe_b64encode (map zeros [0..<12]) \<mapsto> next_sid s0),
        WATCH := (WATCH s0)(urlsafe_b64encode (map zeros [12..<24]) \<mapsto> next_sid s0),
        heap := (heap s0)(next_sid s0 := \<lparr>game = Connect4 connect4, connected = {0}\<rparr>),
        next_sid := Suc (next_sid s0),
        pc := (pc s0)(0 := InPlay (next_sid s0) PLAYER1
                (start_frame (urlsafe_b64encode (map zeros [0..<12])))),
        outbox := (outbox s0)(0 := outbox s0 0 @
          [Init_event (urlsafe_b64encode (map zeros [0..<12]))
             (urlsafe_b64encode (map zeros [12..<24]))])\<rparr>
   \<and> moves (Connect4 connect4) = []
   \<and> card (urlsafe_b64encode ` {bs. length bs = 12}) = 2 ^ 96"
proof -
  have h1: "pc s0 0 = AwaitInit" by (rule s0_idle)
  have h2: "subscript init_msg ''type'' = Inr (JStr ''init'')" by (rule msg_fields)
  have h3: "subscript init_msg ''join'' = Inl KeyError" by (rule msg_fields)
  have h4: "subscript init_msg ''watch'' = Inl KeyError" by (rule msg_fields)
  from start_mints_registers_and_sends_two_tokens [OF h1 h2 h3 h4, of connect4 zeros] h1 h2 h3 h4
  show ?thesis by blast
qed

end
